theory Spec2Isabelle
  imports Complex_Main "HOL-Library.Word" "HOL-Library.Multiset"
begin

section \<open>Machine integers\<close>

text \<open>
  \<^verbatim>\<open>size_t\<close> is the unsigned 64-bit integer of the platforms the library targets:
  multiplication wraps around, division truncates.
\<close>

type_synonym size_t = "64 word"

section \<open>The bucket-count picker (concurrent\_map\_old.h, get\_n\_rehashing\_buckets)\<close>

definition PRIMES :: "size_t list" where
  "PRIMES = [11, 17, 29, 47, 79, 127, 211, 337, 547, 887, 1433, 2311, 3739, 6053, 9791, 15859]"

definition N_PRIMES :: nat where
  "N_PRIMES = length PRIMES"

definition LAST_PRIME :: size_t where
  "LAST_PRIME = PRIMES ! (N_PRIMES - 1)"

text \<open>
  The first loop, on the pair \<^verbatim>\<open>(remaining_factor, n_rehashing_buckets)\<close>:
  \<^verbatim>\<open>while (remaining_factor > LAST_PRIME) { remaining_factor /= LAST_PRIME;
  n_rehashing_buckets *= LAST_PRIME; }\<close>
\<close>

function divide_loop :: "size_t \<Rightarrow> size_t \<Rightarrow> size_t \<times> size_t" where
  "divide_loop remaining_factor n_rehashing_buckets =
     (if remaining_factor > LAST_PRIME
      then divide_loop (remaining_factor div LAST_PRIME) (n_rehashing_buckets * LAST_PRIME)
      else (remaining_factor, n_rehashing_buckets))"
  by pat_completeness auto
termination
proof (relation "measure (\<lambda>(r, n). unat r)")
  show "wf (measure (\<lambda>(r :: size_t, n :: size_t). unat r))"
    by simp
next
  fix remaining_factor n_rehashing_buckets :: size_t
  assume gt: "LAST_PRIME < remaining_factor"
  have lp: "unat LAST_PRIME = 15859"
    by (simp add: LAST_PRIME_def N_PRIMES_def PRIMES_def)
  from gt have "15859 < unat remaining_factor"
    by (simp add: word_less_nat_alt lp)
  then have "unat remaining_factor div 15859 < unat remaining_factor"
    by simp
  then show "((remaining_factor div LAST_PRIME, n_rehashing_buckets * LAST_PRIME),
               (remaining_factor, n_rehashing_buckets)) \<in> measure (\<lambda>(r, n). unat r)"
    by (simp add: unat_div lp)
qed

declare divide_loop.simps [simp del]

text \<open>
  The binary search. The indices \<^verbatim>\<open>left\<close>, \<^verbatim>\<open>mid\<close>, \<^verbatim>\<open>right\<close> never exceed
  \<^verbatim>\<open>N_PRIMES - 1 = 15\<close>, so they are natural numbers here; the table entries and the
  remaining factor are 64-bit.
\<close>

function prime_search :: "size_t \<Rightarrow> nat \<Rightarrow> nat \<Rightarrow> nat" where
  "prime_search remaining_factor left right =
     (if left < right
      then (let mid = (left + right) div 2
            in if PRIMES ! mid < remaining_factor
               then prime_search remaining_factor (mid + 1) right
               else prime_search remaining_factor left mid)
      else left)"
  by pat_completeness auto
termination
  by (relation "measure (\<lambda>(r, left, right). right - left)") auto

declare prime_search.simps [simp del]

definition get_n_rehashing_buckets :: "size_t \<Rightarrow> size_t" where
  "get_n_rehashing_buckets n_buckets_min =
     (let (remaining_factor, n_rehashing_buckets) = divide_loop n_buckets_min 1;
          left = prime_search remaining_factor 0 (N_PRIMES - 1)
      in n_rehashing_buckets * PRIMES ! left)"

section \<open>The chained hash map (concurrent\_map\_old.h, class ConcurrentMap)\<close>

text \<open>
  A \<^verbatim>\<open>std::unique_ptr<hash_node>\<close> owns the chain that starts at it: the null pointer is
  the empty list, and a node \<^verbatim>\<open>(key, value, next)\<close> is \<open>(key, value) # next\<close>.

  The model is of one thread running an operation to completion. The segment locks are
  then always free when requested, and the re-check of \<^verbatim>\<open>n_buckets\<close> after the lock
  is taken in \<^verbatim>\<open>hash_node_apply\<close> always succeeds, so the locks, \<^verbatim>\<open>n_segments\<close> and
  the retry loop are left out. A \<^verbatim>\<open>#pragma omp parallel for\<close> runs in index order.

  \<^verbatim>\<open>max_load_factor\<close> is a \<^verbatim>\<open>double\<close>; it is an exact rational here, so the rounding of
  \<^verbatim>\<open>n_buckets * max_load_factor\<close> and \<^verbatim>\<open>n_keys / max_load_factor\<close> is not modelled (both
  are exact for a power of two such as the default 1.0 and counts below \<open>2 ^ 53\<close>).

  Undefined behaviour of the C++ (division by zero, reading a vector out of range,
  converting an out-of-range \<^verbatim>\<open>double\<close> to \<^verbatim>\<open>size_t\<close>) is the result \<open>None\<close>.
\<close>

type_synonym ('k, 'v) chain = "('k \<times> 'v) list"

record ('k, 'v) concurrent_map =
  n_keys :: size_t
  n_buckets :: size_t
  max_load_factor :: rat
  hasher :: "'k \<Rightarrow> size_t"
  buckets :: "('k, 'v) chain list"

definition N_INITIAL_BUCKETS :: size_t where
  "N_INITIAL_BUCKETS = 11"

definition DEFAULT_MAX_LOAD_FACTOR :: rat where
  "DEFAULT_MAX_LOAD_FACTOR = 1"

text \<open>The constructor; the hash functor \<^verbatim>\<open>H\<close> is its parameter.\<close>

definition ConcurrentMap :: "('k \<Rightarrow> size_t) \<Rightarrow> ('k, 'v) concurrent_map" where
  "ConcurrentMap h =
     \<lparr>n_keys = 0, n_buckets = N_INITIAL_BUCKETS, max_load_factor = DEFAULT_MAX_LOAD_FACTOR,
      hasher = h, buckets = replicate (unat N_INITIAL_BUCKETS) []\<rparr>"

definition set_max_load_factor ::
  "('k, 'v) concurrent_map \<Rightarrow> rat \<Rightarrow> ('k, 'v) concurrent_map" where
  "set_max_load_factor m mlf = m\<lparr>max_load_factor := mlf\<rparr>"

text \<open>
  \<^verbatim>\<open>get_hash_value\<close> divides the hash by the number of processes
  (\<^verbatim>\<open>Parallel::get_n_procs()\<close>, at least 1 in a run), passed as \<open>n_procs\<close>.
\<close>

definition get_hash_value :: "size_t \<Rightarrow> ('k, 'v) concurrent_map \<Rightarrow> 'k \<Rightarrow> size_t" where
  "get_hash_value n_procs m key = hasher m key div n_procs"

text \<open>
  A node handler receives the slot (the chain that starts there) and may replace it; the
  variables it captures by reference and writes are the extra state \<open>'s\<close>.
\<close>

fun hash_node_apply_recursive ::
  "('k, 'v) chain \<Rightarrow> 'k \<Rightarrow> (('k, 'v) chain \<Rightarrow> 's \<Rightarrow> ('k, 'v) chain \<times> 's) \<Rightarrow> 's
     \<Rightarrow> ('k, 'v) chain \<times> 's" where
  "hash_node_apply_recursive [] key node_handler s = node_handler [] s"
| "hash_node_apply_recursive ((k, v) # next) key node_handler s =
     (if k = key then node_handler ((k, v) # next) s
      else (let (next', s') = hash_node_apply_recursive next key node_handler s
            in ((k, v) # next', s')))"

text \<open>Post-order: the handler sees a node after the rest of its chain has been handled.\<close>

fun hash_node_all_apply_recursive ::
  "('k, 'v) chain \<Rightarrow> (('k, 'v) chain \<Rightarrow> 's \<Rightarrow> ('k, 'v) chain \<times> 's) \<Rightarrow> 's
     \<Rightarrow> ('k, 'v) chain \<times> 's" where
  "hash_node_all_apply_recursive [] node_handler s = ([], s)"
| "hash_node_all_apply_recursive ((k, v) # next) node_handler s =
     (let (next', s') = hash_node_all_apply_recursive next node_handler s
      in node_handler ((k, v) # next') s')"

definition hash_node_apply ::
  "('k, 'v) concurrent_map \<Rightarrow> 'k \<Rightarrow> size_t
     \<Rightarrow> (('k, 'v) chain \<Rightarrow> 's \<Rightarrow> ('k, 'v) chain \<times> 's) \<Rightarrow> 's
     \<Rightarrow> (('k, 'v) concurrent_map \<times> 's) option" where
  "hash_node_apply m key hash_value node_handler s =
     (if n_buckets m = 0 then None
      else (let bucket_id = unat (hash_value mod n_buckets m)
            in if bucket_id < length (buckets m)
               then (let (node', s') =
                           hash_node_apply_recursive (buckets m ! bucket_id) key node_handler s
                     in Some (m\<lparr>buckets := (buckets m)[bucket_id := node']\<rparr>, s'))
               else None))"

subsection \<open>Rehashing\<close>

text \<open>
  The handler of the new slot: \<^verbatim>\<open>rehashing_node = std::move(node);
  rehashing_node->next.reset();\<close>. Whatever the slot owned before is destroyed, and the
  slot then holds the moved node alone.
\<close>

definition rehashing_node_handler ::
  "'k \<times> 'v \<Rightarrow> ('k, 'v) chain \<Rightarrow> unit \<Rightarrow> ('k, 'v) chain \<times> unit" where
  "rehashing_node_handler node rehashing_node u = ([node], u)"

text \<open>
  The handler of an old node, with the new bucket array as state. The old slot is left
  null. It is only ever called on a node, never on a null slot.
\<close>

definition rehash_node_handler ::
  "size_t \<Rightarrow> ('k, 'v) concurrent_map \<Rightarrow> size_t \<Rightarrow> ('k, 'v) chain \<Rightarrow> ('k, 'v) chain list
     \<Rightarrow> ('k, 'v) chain \<times> ('k, 'v) chain list" where
  "rehash_node_handler n_procs m n_rehashing_buckets node rehashing_buckets =
     (case node of
        [] \<Rightarrow> ([], rehashing_buckets)
      | (key, value) # next \<Rightarrow>
          (let hash_value = get_hash_value n_procs m key;
               bucket_id = unat (hash_value mod n_rehashing_buckets);
               (node', u) = hash_node_apply_recursive (rehashing_buckets ! bucket_id) key
                              (rehashing_node_handler (key, value)) ()
           in ([], rehashing_buckets[bucket_id := node'])))"

definition rehash_n ::
  "size_t \<Rightarrow> ('k, 'v) concurrent_map \<Rightarrow> size_t \<Rightarrow> ('k, 'v) concurrent_map option" where
  "rehash_n n_procs m n_rehashing_buckets =
     (if n_buckets m \<ge> n_rehashing_buckets then Some m
      else if length (buckets m) < unat (n_buckets m) then None
      else (let rehashing_buckets =
                  foldl (\<lambda>rb node. snd (hash_node_all_apply_recursive node
                                           (rehash_node_handler n_procs m n_rehashing_buckets) rb))
                    (replicate (unat n_rehashing_buckets) [])
                    (take (unat (n_buckets m)) (buckets m))
            in Some (m\<lparr>buckets := rehashing_buckets, n_buckets := n_rehashing_buckets\<rparr>)))"

definition reserve ::
  "size_t \<Rightarrow> ('k, 'v) concurrent_map \<Rightarrow> size_t \<Rightarrow> ('k, 'v) concurrent_map option" where
  "reserve n_procs m n_buckets_min =
     (if n_buckets m \<ge> n_buckets_min then Some m
      else rehash_n n_procs m (get_n_rehashing_buckets n_buckets_min))"

text \<open>\<^verbatim>\<open>static_cast<size_t>\<close> of a \<^verbatim>\<open>double\<close>: truncation towards zero.\<close>

definition to_size_t :: "rat \<Rightarrow> size_t option" where
  "to_size_t x =
     (let t = (if 0 \<le> x then \<lfloor>x\<rfloor> else \<lceil>x\<rceil>)
      in if 0 \<le> t \<and> t < 2 ^ 64 then Some (word_of_int t) else None)"

definition rehash :: "size_t \<Rightarrow> ('k, 'v) concurrent_map \<Rightarrow> ('k, 'v) concurrent_map option" where
  "rehash n_procs m =
     (if max_load_factor m = 0 then None
      else (case to_size_t (of_nat (unat (n_keys m)) / max_load_factor m) of
              None \<Rightarrow> None
            | Some n_buckets_min \<Rightarrow> reserve n_procs m n_buckets_min))"

subsection \<open>set, get, unset, has\<close>

definition set_node_handler ::
  "'k \<Rightarrow> 'v \<Rightarrow> ('v \<Rightarrow> 'v \<Rightarrow> 'v) \<Rightarrow> ('k, 'v) chain \<Rightarrow> size_t \<Rightarrow> ('k, 'v) chain \<times> size_t" where
  "set_node_handler key value reducer node nk =
     (case node of
        [] \<Rightarrow> ([(key, value)], nk + 1)
      | (k, v) # next \<Rightarrow> ((k, reducer v value) # next, nk))"

text \<open>
  A reducer \<^verbatim>\<open>void(V&, const V&)\<close> updates its first argument in place; here it returns
  the new first argument.
\<close>

definition rehash_needed :: "('k, 'v) concurrent_map \<Rightarrow> bool" where
  "rehash_needed m \<longleftrightarrow>
     of_nat (unat (n_keys m)) \<ge> of_nat (unat (n_buckets m)) * max_load_factor m"

definition set_with_hash ::
  "size_t \<Rightarrow> ('k, 'v) concurrent_map \<Rightarrow> 'k \<Rightarrow> size_t \<Rightarrow> 'v \<Rightarrow> ('v \<Rightarrow> 'v \<Rightarrow> 'v)
     \<Rightarrow> ('k, 'v) concurrent_map option" where
  "set_with_hash n_procs m key hash_value value reducer =
     (case hash_node_apply m key hash_value (set_node_handler key value reducer) (n_keys m) of
        None \<Rightarrow> None
      | Some (m', nk) \<Rightarrow>
          (let m'' = m'\<lparr>n_keys := nk\<rparr>
           in if rehash_needed m'' then rehash n_procs m'' else Some m''))"

definition set_key ::
  "size_t \<Rightarrow> ('k, 'v) concurrent_map \<Rightarrow> 'k \<Rightarrow> 'v \<Rightarrow> ('v \<Rightarrow> 'v \<Rightarrow> 'v)
     \<Rightarrow> ('k, 'v) concurrent_map option" where
  "set_key n_procs m key value reducer =
     set_with_hash n_procs m key (get_hash_value n_procs m key) value reducer"

definition get_node_handler :: "('k, 'v) chain \<Rightarrow> 'v \<Rightarrow> ('k, 'v) chain \<times> 'v" where
  "get_node_handler node value =
     (case node of [] \<Rightarrow> (node, value) | (k, v) # next \<Rightarrow> (node, v))"

text \<open>The result is the value returned and the map as the call leaves it.\<close>

definition get_with_hash ::
  "('k, 'v) concurrent_map \<Rightarrow> 'k \<Rightarrow> size_t \<Rightarrow> 'v \<Rightarrow> ('v \<times> ('k, 'v) concurrent_map) option" where
  "get_with_hash m key hash_value default_value =
     (case hash_node_apply m key hash_value get_node_handler default_value of
        None \<Rightarrow> None
      | Some (m', value) \<Rightarrow> Some (value, m'))"

definition get_key ::
  "size_t \<Rightarrow> ('k, 'v) concurrent_map \<Rightarrow> 'k \<Rightarrow> 'v \<Rightarrow> ('v \<times> ('k, 'v) concurrent_map) option" where
  "get_key n_procs m key default_value =
     get_with_hash m key (get_hash_value n_procs m key) default_value"

definition unset_node_handler :: "('k, 'v) chain \<Rightarrow> size_t \<Rightarrow> ('k, 'v) chain \<times> size_t" where
  "unset_node_handler node nk =
     (case node of [] \<Rightarrow> (node, nk) | (k, v) # next \<Rightarrow> (next, nk - 1))"

definition unset_with_hash ::
  "('k, 'v) concurrent_map \<Rightarrow> 'k \<Rightarrow> size_t \<Rightarrow> ('k, 'v) concurrent_map option" where
  "unset_with_hash m key hash_value =
     (case hash_node_apply m key hash_value unset_node_handler (n_keys m) of
        None \<Rightarrow> None
      | Some (m', nk) \<Rightarrow> Some (m'\<lparr>n_keys := nk\<rparr>))"

definition unset_key ::
  "size_t \<Rightarrow> ('k, 'v) concurrent_map \<Rightarrow> 'k \<Rightarrow> ('k, 'v) concurrent_map option" where
  "unset_key n_procs m key = unset_with_hash m key (get_hash_value n_procs m key)"

definition has_node_handler :: "('k, 'v) chain \<Rightarrow> bool \<Rightarrow> ('k, 'v) chain \<times> bool" where
  "has_node_handler node has_key =
     (case node of [] \<Rightarrow> (node, has_key) | (k, v) # next \<Rightarrow> (node, True))"

definition has_with_hash ::
  "('k, 'v) concurrent_map \<Rightarrow> 'k \<Rightarrow> size_t \<Rightarrow> (bool \<times> ('k, 'v) concurrent_map) option" where
  "has_with_hash m key hash_value =
     (case hash_node_apply m key hash_value has_node_handler False of
        None \<Rightarrow> None
      | Some (m', has_key) \<Rightarrow> Some (has_key, m'))"

definition has_key ::
  "size_t \<Rightarrow> ('k, 'v) concurrent_map \<Rightarrow> 'k \<Rightarrow> (bool \<times> ('k, 'v) concurrent_map) option" where
  "has_key n_procs m key = has_with_hash m key (get_hash_value n_procs m key)"

subsection \<open>clear, clear\_and\_shrink\<close>

text \<open>
  \<^verbatim>\<open>for (i = 0; i < n_buckets; i++) buckets[i].reset();\<close> empties the first
  \<^verbatim>\<open>n_buckets\<close> slots of the vector. \<^verbatim>\<open>buckets.resize(n)\<close> drops the slots from \<open>n\<close> on
  and pads with null slots up to \<open>n\<close>.
\<close>

definition reset_buckets :: "('k, 'v) concurrent_map \<Rightarrow> ('k, 'v) chain list option" where
  "reset_buckets m =
     (if unat (n_buckets m) \<le> length (buckets m)
      then Some (replicate (unat (n_buckets m)) [] @ drop (unat (n_buckets m)) (buckets m))
      else None)"

definition resize :: "'a list \<Rightarrow> nat \<Rightarrow> 'a \<Rightarrow> 'a list" where
  "resize xs n x = take n xs @ replicate (n - length xs) x"

definition clear :: "('k, 'v) concurrent_map \<Rightarrow> ('k, 'v) concurrent_map option" where
  "clear m =
     (case reset_buckets m of
        None \<Rightarrow> None
      | Some bs \<Rightarrow> Some (m\<lparr>buckets := bs, n_keys := 0\<rparr>))"

definition clear_and_shrink :: "('k, 'v) concurrent_map \<Rightarrow> ('k, 'v) concurrent_map option" where
  "clear_and_shrink m =
     (case reset_buckets m of
        None \<Rightarrow> None
      | Some bs \<Rightarrow>
          Some (m\<lparr>buckets := resize bs (unat N_INITIAL_BUCKETS) [], n_keys := 0,
                  n_buckets := N_INITIAL_BUCKETS\<rparr>))"

subsection \<open>Progress ticks of mapreduce\<close>

text \<open>
  The inner loop \<^verbatim>\<open>while (target_progress <= current_progress) { printf("%.1f%% ",
  target_progress); target_progress *= 2; }\<close> on the shared \<^verbatim>\<open>target_progress\<close> and the
  ticks printed so far. The two \<^verbatim>\<open>double\<close>s are exact rationals; a tick is recorded as the
  number handed to \<^verbatim>\<open>printf\<close>. The loop does not end for a target that is not positive,
  hence the option.
\<close>

partial_function (option) print_ticks :: "rat \<Rightarrow> rat \<Rightarrow> rat list \<Rightarrow> (rat \<times> rat list) option" where
  "print_ticks target_progress current_progress printed =
     (if target_progress \<le> current_progress
      then print_ticks (target_progress * 2) current_progress (printed @ [target_progress])
      else Some (target_progress, printed))"

declare print_ticks.simps [code]

text \<open>
  What iteration \<open>i\<close> of the bucket loop does to the progress state when it runs on thread
  \<open>thread_id\<close> of process \<open>proc_id\<close> (the mapper calls do not touch that state).
\<close>

definition progress_step ::
  "bool \<Rightarrow> nat \<Rightarrow> nat \<Rightarrow> nat \<Rightarrow> nat \<Rightarrow> rat \<times> rat list \<Rightarrow> (rat \<times> rat list) option" where
  "progress_step verbose proc_id thread_id n_bkts i st =
     (if verbose \<and> proc_id = 0 \<and> thread_id = 0
      then print_ticks (fst st) (of_nat i * 100 / of_nat n_bkts) (snd st)
      else Some st)"

text \<open>
  \<^verbatim>\<open>for (size_t i = proc_id; i < n_buckets; i += n_procs)\<close> under
  \<^verbatim>\<open>schedule(static, 1)\<close>: the \<open>j\<close>-th iteration has \<open>i = proc_id + j * n_procs\<close> and runs on
  thread \<open>j mod n_threads\<close>. Only thread 0 ever writes the progress state, so the
  iterations are taken in index order.
\<close>

definition n_iterations :: "nat \<Rightarrow> nat \<Rightarrow> nat \<Rightarrow> nat" where
  "n_iterations proc_id n_procs n_bkts = (n_bkts - proc_id + n_procs - 1) div n_procs"

fun progress_loop ::
  "bool \<Rightarrow> nat \<Rightarrow> nat \<Rightarrow> nat \<Rightarrow> nat \<Rightarrow> nat list \<Rightarrow> rat \<times> rat list \<Rightarrow> (rat \<times> rat list) option" where
  "progress_loop verbose proc_id n_procs n_threads n_bkts [] st = Some st"
| "progress_loop verbose proc_id n_procs n_threads n_bkts (j # js) st =
     (case progress_step verbose proc_id (j mod n_threads) n_bkts (proc_id + j * n_procs) st of
        None \<Rightarrow> None
      | Some st' \<Rightarrow> progress_loop verbose proc_id n_procs n_threads n_bkts js st')"

text \<open>The ticks a call of \<^verbatim>\<open>mapreduce\<close> prints on process \<open>proc_id\<close>, in order.\<close>

definition mapreduce_ticks :: "bool \<Rightarrow> nat \<Rightarrow> nat \<Rightarrow> nat \<Rightarrow> nat \<Rightarrow> rat list option" where
  "mapreduce_ticks verbose proc_id n_procs n_threads n_bkts =
     map_option snd
       (progress_loop verbose proc_id n_procs n_threads n_bkts
          [0 ..< n_iterations proc_id n_procs n_bkts] (1 / 10, []))"

section \<open>The segmented map (bare\_concurrent\_map.h, class BareConcurrentMap)\<close>

text \<open>
  Modelled from the spec: \<^verbatim>\<open>bare_map.h\<close> (class \<^verbatim>\<open>BareMap\<close> with \<^verbatim>\<open>set\<close>, \<^verbatim>\<open>for_each\<close> and
  \<^verbatim>\<open>clear\<close>) is not among the sources. By the specification, \<^verbatim>\<open>set\<close> walks the chain of
  the key, applies the reducer to the value of the key if it is found and appends a new
  node otherwise; \<^verbatim>\<open>for_each\<close> visits every node as \<open>(key, hash, value)\<close>; \<^verbatim>\<open>clear\<close>
  removes every node. The model keeps the nodes of a bare map in one list, in insertion
  order; the bucket array and its rehashing, which leave keys and values as they are, are
  not modelled.
\<close>

type_synonym ('k, 'v) bare_map = "('k \<times> size_t \<times> 'v) list"

text \<open>
  Modelled from the spec: \<^verbatim>\<open>BareMap::set\<close> (in \<^verbatim>\<open>bare_map.h\<close>, not among the sources)
  applies the reducer to the value of the first node with the key, the stored value first,
  or appends a node with the key, the hash value and the value.
\<close>

fun bare_set ::
  "('k, 'v) bare_map \<Rightarrow> 'k \<Rightarrow> size_t \<Rightarrow> 'v \<Rightarrow> ('v \<Rightarrow> 'v \<Rightarrow> 'v) \<Rightarrow> ('k, 'v) bare_map" where
  "bare_set [] key hash_value value reducer = [(key, hash_value, value)]"
| "bare_set ((k, h, v) # next) key hash_value value reducer =
     (if k = key then (k, h, reducer v value) # next
      else (k, h, v) # bare_set next key hash_value value reducer)"



text \<open>
  The state of a \<^verbatim>\<open>BareConcurrentMap\<close>. A lock is \<open>True\<close> while some thread holds it.
\<close>

record ('k, 'v) bare_concurrent_map =
  n_threads :: size_t
  n_segments :: size_t
  segment_locks :: "bool list"
  thread_caches :: "('k, 'v) bare_map list"
  segments :: "('k, 'v) bare_map list"

text \<open>
  \<^verbatim>\<open>async_set\<close> as run by thread \<open>thread_id\<close>. \<^verbatim>\<open>omp_test_lock\<close> succeeds exactly when the
  lock is free; the lock is released again before the call returns, so the lock state
  after the call is the one before it.
\<close>

definition async_set ::
  "nat \<Rightarrow> ('k, 'v) bare_concurrent_map \<Rightarrow> 'k \<Rightarrow> size_t \<Rightarrow> 'v \<Rightarrow> ('v \<Rightarrow> 'v \<Rightarrow> 'v)
     \<Rightarrow> ('k, 'v) bare_concurrent_map option" where
  "async_set thread_id m key hash_value value reducer =
     (if n_segments m = 0 then None
      else (let async_hash_value = hash_value div n_segments m;
                segment_id = unat (hash_value mod n_segments m)
            in if segment_id \<ge> length (segment_locks m) then None
               else if \<not> segment_locks m ! segment_id
               then (if segment_id < length (segments m)
                     then Some (m\<lparr>segments := (segments m)[segment_id :=
                                   bare_set (segments m ! segment_id) key async_hash_value
                                     value reducer]\<rparr>)
                     else None)
               else (if thread_id < length (thread_caches m)
                     then Some (m\<lparr>thread_caches := (thread_caches m)[thread_id :=
                                   bare_set (thread_caches m ! thread_id) key hash_value
                                     value reducer]\<rparr>)
                     else None)))"





section \<open>Abstract view of the segmented map\<close>







text \<open>
  An example with two threads and 14 segments, under the identity hash: key 15 is
  committed in segment \<open>15 mod 14 = 1\<close> under the hash \<open>15 div 14 = 1\<close> and staged by both
  threads; key 3 is staged by thread 1 only.
\<close>

definition segmented_map :: "(nat, nat) bare_concurrent_map" where
  "segmented_map =
     \<lparr>n_threads = 2, n_segments = 14,
      segment_locks = [False, False, False, False, False, False, False,
                       False, False, False, False, False, False, False],
      thread_caches = [[(15, 15, 1)], [(15, 15, 2), (3, 3, 5)]],
      segments = [[], [(15, 1, 100)], [], [], [], [], [], [], [], [], [], [], [], []]\<rparr>"

section \<open>Abstract view of the chained hash map\<close>

text \<open>All nodes of the map, bucket by bucket.\<close>

definition entries :: "('k, 'v) concurrent_map \<Rightarrow> ('k \<times> 'v) list" where
  "entries m = concat (buckets m)"

text \<open>The value stored for a key, if any.\<close>

definition lookup :: "('k, 'v) concurrent_map \<Rightarrow> 'k \<Rightarrow> 'v option" where
  "lookup m key = map_of (entries m) key"

text \<open>
  The representation invariant: the vector has \<^verbatim>\<open>n_buckets\<close> slots, at least one; every
  node sits in the bucket of its hash value; no chain holds a key twice.
\<close>

definition map_inv :: "size_t \<Rightarrow> ('k, 'v) concurrent_map \<Rightarrow> bool" where
  "map_inv n_procs m \<longleftrightarrow>
     n_buckets m \<noteq> 0 \<and> length (buckets m) = unat (n_buckets m) \<and>
     (\<forall>i < length (buckets m). \<forall>kv \<in> set (buckets m ! i).
        unat (get_hash_value n_procs m (fst kv) mod n_buckets m) = i) \<and>
     (\<forall>i < length (buckets m). distinct (map fst (buckets m ! i)))"

text \<open>The invariant of the chains from bucket \<open>i\<close> on, in a form that evaluates.\<close>

fun chains_inv ::
  "size_t \<Rightarrow> ('k, 'v) concurrent_map \<Rightarrow> nat \<Rightarrow> ('k, 'v) chain list \<Rightarrow> bool" where
  "chains_inv n_procs m i [] = True"
| "chains_inv n_procs m i (c # cs) =
     ((\<forall>kv \<in> set c. unat (get_hash_value n_procs m (fst kv) mod n_buckets m) = i)
      \<and> distinct (map fst c) \<and> chains_inv n_procs m (i + 1) cs)"

section \<open>Example maps\<close>

text \<open>
  A map with the keys 1, 5 and 16 under the hash function \<open>of_nat\<close>; 5 and 16 share
  bucket 5 of 11. With one process it is what the constructor followed by
  \<^verbatim>\<open>set(1, 10)\<close>, \<^verbatim>\<open>set(5, 50)\<close>, \<^verbatim>\<open>set(16, 60)\<close> builds.
\<close>

definition small_map :: "(nat, nat) concurrent_map" where
  "small_map =
     \<lparr>n_keys = 3, n_buckets = 11, max_load_factor = 1, hasher = of_nat,
      buckets = [[], [(1, 10)], [], [], [], [(5, 50), (16, 60)], [], [], [], [], []]\<rparr>"

text \<open>
  A map with \<^verbatim>\<open>max_load_factor\<close> 2.0 that holds the 22 keys \<open>0, \<dots>, 21\<close> (each with the
  value 0) in its 11 buckets: what the constructor, \<^verbatim>\<open>set_max_load_factor(2.0)\<close> and
  \<^verbatim>\<open>set(k, 0)\<close> for \<open>k = 0, \<dots>, 21\<close> build.
\<close>

definition loaded_map :: "(nat, nat) concurrent_map" where
  "loaded_map =
     \<lparr>n_keys = 22, n_buckets = 11, max_load_factor = 2, hasher = of_nat,
      buckets = [[(0, 0), (11, 0)], [(1, 0), (12, 0)], [(2, 0), (13, 0)], [(3, 0), (14, 0)],
                 [(4, 0), (15, 0)], [(5, 0), (16, 0)], [(6, 0), (17, 0)], [(7, 0), (18, 0)],
                 [(8, 0), (19, 0)], [(9, 0), (20, 0)], [(10, 0), (21, 0)]]\<rparr>"

text \<open>The loaded map after one more key, 22, has been set.\<close>

definition overloaded_map :: "(nat, nat) concurrent_map" where
  "overloaded_map =
     \<lparr>n_keys = 23, n_buckets = 11, max_load_factor = 2, hasher = of_nat,
      buckets = [[(0, 0), (11, 0), (22, 0)], [(1, 0), (12, 0)], [(2, 0), (13, 0)],
                 [(3, 0), (14, 0)], [(4, 0), (15, 0)], [(5, 0), (16, 0)], [(6, 0), (17, 0)],
                 [(7, 0), (18, 0)], [(8, 0), (19, 0)], [(9, 0), (20, 0)], [(10, 0), (21, 0)]]\<rparr>"



section \<open>Properties of the bucket-count picker\<close>

lemma LAST_PRIME_eq: "LAST_PRIME = 15859"
  by (simp add: LAST_PRIME_def N_PRIMES_def PRIMES_def)

lemma N_PRIMES_eq: "N_PRIMES = 16"
  by (simp add: N_PRIMES_def PRIMES_def)






text \<open>
  The picker takes at least what it is asked for up to 174449 (the lemma above). Beyond
  that the truncating division loses the remainder, and for the largest requests the
  64-bit product wraps around as well:
\<close>

lemma get_n_rehashing_buckets_wraps:
  "get_n_rehashing_buckets 18446744073709551615 = 2870600113412572641"
  by (simp add: get_n_rehashing_buckets_def divide_loop.simps prime_search.simps
        LAST_PRIME_eq N_PRIMES_eq PRIMES_def)

text \<open>
  Claim C1. For every requested minimum \<open>m \<ge> 1\<close> the picker is claimed to return a
  number that is at least \<open>m\<close>, a prime of the table or a product of such primes; the
  comment in the function says the same (``Returns a number that is greater than or equal
  to n\_buckets\_min''). The division in the first loop truncates, so the claim fails: for
  \<open>m = 174450 = 11 * 15859 + 1\<close> the loop leaves the factor 11, the search picks the
  prime 11, and the result \<open>15859 * 11 = 174449\<close> is below the request.
\<close>

theorem get_n_rehashing_buckets_below_request:
  "get_n_rehashing_buckets 174450 = 174449 \<and> get_n_rehashing_buckets 174450 < 174450"
  by (simp add: get_n_rehashing_buckets_def divide_loop.simps prime_search.simps
        LAST_PRIME_eq N_PRIMES_eq PRIMES_def)

section \<open>Walking a chain\<close>

lemma apply_recursive_absent:
  "key \<notin> fst ` set c \<Longrightarrow>
   hash_node_apply_recursive c key h s = (case h [] s of (c', s') \<Rightarrow> (c @ c', s'))"
  by (induction c) (auto split: prod.splits)

lemma apply_recursive_present:
  "key \<notin> fst ` set xs \<Longrightarrow>
   hash_node_apply_recursive (xs @ (key, v) # ys) key h s =
     (case h ((key, v) # ys) s of (c', s') \<Rightarrow> (xs @ c', s'))"
  by (induction xs) (auto split: prod.splits)

lemma chain_split_first:
  "key \<in> fst ` set c \<Longrightarrow>
   \<exists>xs v ys. c = xs @ (key, v) # ys \<and> key \<notin> fst ` set xs \<and> map_of c key = Some v"
proof (induction c)
  case Nil
  then show ?case by simp
next
  case (Cons a c)
  obtain k x where a: "a = (k, x)" by (cases a)
  show ?case
  proof (cases "k = key")
    case True
    then have "a # c = [] @ (key, x) # c \<and> key \<notin> fst ` set [] \<and> map_of (a # c) key = Some x"
      by (simp add: a)
    then show ?thesis by blast
  next
    case False
    with Cons.prems a have "key \<in> fst ` set c" by auto
    from Cons.IH[OF this] obtain xs v ys where
      "c = xs @ (key, v) # ys" "key \<notin> fst ` set xs" "map_of c key = Some v" by blast
    then have "a # c = (a # xs) @ (key, v) # ys \<and> key \<notin> fst ` set (a # xs)
               \<and> map_of (a # c) key = Some v"
      using False a by auto
    then show ?thesis by blast
  qed
qed

lemma map_of_first_occurrence:
  "key \<notin> fst ` set xs \<Longrightarrow> map_of (xs @ (key, v) # ys) key = Some v"
  by (induction xs) auto

lemma get_recursive:
  "hash_node_apply_recursive c key get_node_handler d =
     (c, case map_of c key of None \<Rightarrow> d | Some v \<Rightarrow> v)"
  by (induction c) (auto simp: get_node_handler_def split: prod.splits)

lemma has_recursive:
  "hash_node_apply_recursive c key has_node_handler b =
     (c, b \<or> key \<in> fst ` set c)"
  by (induction c) (auto simp: has_node_handler_def split: prod.splits)

lemma unset_recursive_absent:
  "key \<notin> fst ` set c \<Longrightarrow> hash_node_apply_recursive c key unset_node_handler nk = (c, nk)"
  by (simp add: apply_recursive_absent unset_node_handler_def)

lemma unset_recursive_present:
  "key \<notin> fst ` set xs \<Longrightarrow>
   hash_node_apply_recursive (xs @ (key, v) # ys) key unset_node_handler nk = (xs @ ys, nk - 1)"
  by (simp add: apply_recursive_present unset_node_handler_def)

lemma set_recursive_absent:
  "key \<notin> fst ` set c \<Longrightarrow>
   hash_node_apply_recursive c key (set_node_handler key value reducer) nk =
     (c @ [(key, value)], nk + 1)"
  by (simp add: apply_recursive_absent set_node_handler_def)

lemma set_recursive_present:
  "key \<notin> fst ` set xs \<Longrightarrow>
   hash_node_apply_recursive (xs @ (key, v) # ys) key (set_node_handler key value reducer) nk =
     (xs @ (key, reducer v value) # ys, nk)"
  by (simp add: apply_recursive_present set_node_handler_def)

section \<open>The bucket of a key\<close>

lemma bucket_id_less:
  assumes "n \<noteq> 0"
  shows "unat (h mod n) < unat (n :: size_t)"
proof -
  have "0 < unat n"
    using assms by (simp add: unat_gt_0)
  then have "unat h mod unat n < unat n"
    by simp
  then show ?thesis
    by (simp add: unat_mod)
qed

lemma record_buckets_id:
  "b < length (buckets m) \<Longrightarrow> m\<lparr>buckets := (buckets m)[b := buckets m ! b]\<rparr> = m"
  by simp

lemma map_of_concat_None:
  "key \<notin> fst ` set (concat bs) \<Longrightarrow> map_of (concat bs) key = None"
  by (simp add: map_of_eq_None_iff)

lemma map_of_concat_bucket:
  assumes "b < length bs"
    and "\<forall>i < length bs. i \<noteq> b \<longrightarrow> key \<notin> fst ` set (bs ! i)"
  shows "map_of (concat bs) key = map_of (bs ! b) key"
proof -
  have split: "bs = take b bs @ bs ! b # drop (Suc b) bs"
    using assms(1) by (rule id_take_nth_drop)
  have before: "key \<notin> fst ` set (concat (take b bs))"
  proof
    assume "key \<in> fst ` set (concat (take b bs))"
    then obtain c where c: "c \<in> set (take b bs)" "key \<in> fst ` set c" by auto
    then obtain i where "i < length (take b bs)" "take b bs ! i = c"
      by (auto simp: in_set_conv_nth)
    then have "i < length bs" "i \<noteq> b" "bs ! i = c" using assms(1) by auto
    with assms(2) c(2) show False by blast
  qed
  have after: "key \<notin> fst ` set (concat (drop (Suc b) bs))"
  proof
    assume "key \<in> fst ` set (concat (drop (Suc b) bs))"
    then obtain c where c: "c \<in> set (drop (Suc b) bs)" "key \<in> fst ` set c" by auto
    then obtain i where i: "i < length (drop (Suc b) bs)" "drop (Suc b) bs ! i = c"
      by (auto simp: in_set_conv_nth)
    then have "Suc b + i < length bs" "Suc b + i \<noteq> b" "bs ! (Suc b + i) = c" by auto
    with assms(2) c(2) show False by blast
  qed
  have "map_of (concat bs) key
        = map_of (concat (take b bs) @ bs ! b @ concat (drop (Suc b) bs)) key"
    by (subst split) simp
  also have "\<dots> = map_of (bs ! b) key"
    using map_of_concat_None[OF before] map_of_concat_None[OF after]
    by (simp add: map_add_def split: option.splits)
  finally show ?thesis .
qed

lemma map_inv_bucket_id:
  "map_inv np m \<Longrightarrow> unat (get_hash_value np m key mod n_buckets m) < length (buckets m)"
  by (simp add: map_inv_def bucket_id_less)

lemma map_inv_other_bucket:
  assumes "map_inv np m" "i < length (buckets m)"
    "i \<noteq> unat (get_hash_value np m key mod n_buckets m)"
  shows "key \<notin> fst ` set (buckets m ! i)"
proof
  assume "key \<in> fst ` set (buckets m ! i)"
  then obtain kv where "kv \<in> set (buckets m ! i)" "fst kv = key" by auto
  with assms(1,2) have "unat (get_hash_value np m key mod n_buckets m) = i"
    unfolding map_inv_def by blast
  with assms(3) show False by simp
qed

lemma lookup_bucket:
  assumes "map_inv np m"
  shows "lookup m key = map_of (buckets m ! unat (get_hash_value np m key mod n_buckets m)) key"
  unfolding lookup_def entries_def
  using map_inv_bucket_id[OF assms] map_inv_other_bucket[OF assms]
  by (intro map_of_concat_bucket) auto


section \<open>Rehashing\<close>

lemma rehash_node_handler_Cons:
  "rehash_node_handler np m nb (kv # nx) rb = ([], snd (rehash_node_handler np m nb [kv] rb))"
  by (cases kv) (simp add: rehash_node_handler_def Let_def split: prod.splits)

lemma all_apply_rehash:
  "hash_node_all_apply_recursive c (rehash_node_handler np m nb) rb =
     ([], foldr (\<lambda>kv rb. snd (rehash_node_handler np m nb [kv] rb)) c rb)"
proof (induction c)
  case Nil
  then show ?case by simp
next
  case (Cons a c)
  obtain k v where a: "a = (k, v)" by (cases a)
  define rb' where "rb' = foldr (\<lambda>kv rb. snd (rehash_node_handler np m nb [kv] rb)) c rb"
  have "hash_node_all_apply_recursive (a # c) (rehash_node_handler np m nb) rb
        = rehash_node_handler np m nb [a] rb'"
    by (simp add: a Cons.IH rb'_def)
  also have "\<dots> = ([], snd (rehash_node_handler np m nb [a] rb'))"
    by (rule rehash_node_handler_Cons)
  also have "snd (rehash_node_handler np m nb [a] rb')
             = foldr (\<lambda>kv rb. snd (rehash_node_handler np m nb [kv] rb)) (a # c) rb"
    by (simp add: rb'_def)
  finally show ?case .
qed

lemma rehash_fold_flat:
  "foldl (\<lambda>rb node. snd (hash_node_all_apply_recursive node (rehash_node_handler np m nb) rb))
     rb cs =
   foldl (\<lambda>rb kv. snd (rehash_node_handler np m nb [kv] rb)) rb (concat (map rev cs))"
  by (induction cs arbitrary: rb) (simp_all add: all_apply_rehash foldr_conv_foldl)

lemma rehash_step_absent:
  assumes "fst kv \<notin> fst ` set (rb ! unat (get_hash_value np m (fst kv) mod nb))"
  shows "snd (rehash_node_handler np m nb [kv] rb) =
           rb[unat (get_hash_value np m (fst kv) mod nb) :=
                rb ! unat (get_hash_value np m (fst kv) mod nb) @ [kv]]"
  using assms
  by (cases kv)
     (simp add: rehash_node_handler_def Let_def apply_recursive_absent
        rehashing_node_handler_def)

lemma set_concat_snoc_update:
  assumes b: "b < length bs"
  shows "set (concat (bs[b := bs ! b @ [x]])) = insert x (set (concat bs))"
proof -
  have upd: "bs[b := bs ! b @ [x]] = take b bs @ (bs ! b @ [x]) # drop (Suc b) bs"
    using b by (rule upd_conv_take_nth_drop)
  have "concat bs = concat (take b bs @ bs ! b # drop (Suc b) bs)"
    by (subst id_take_nth_drop[OF b]) (rule refl)
  then have "set (concat bs)
             = set (concat (take b bs)) \<union> set (bs ! b) \<union> set (concat (drop (Suc b) bs))"
    by (simp add: Un_assoc)
  moreover have "set (concat (bs[b := bs ! b @ [x]]))
             = set (concat (take b bs)) \<union> insert x (set (bs ! b))
               \<union> set (concat (drop (Suc b) bs))"
    unfolding upd by (simp add: Un_assoc)
  ultimately show ?thesis by blast
qed

lemma mem_concat_nth:
  "i < length bs \<Longrightarrow> x \<in> set (bs ! i) \<Longrightarrow> x \<in> set (concat bs)"
  by auto

lemma rehash_fold_inv:
  assumes "nb \<noteq> 0" and "length rb = unat nb"
    and "distinct (map fst ns)"
    and "fst ` set ns \<inter> fst ` set (concat rb) = {}"
    and "\<forall>i < length rb. \<forall>kv \<in> set (rb ! i). unat (get_hash_value np m (fst kv) mod nb) = i"
    and "\<forall>i < length rb. distinct (map fst (rb ! i))"
  shows "length (foldl (\<lambda>rb kv. snd (rehash_node_handler np m nb [kv] rb)) rb ns) = unat nb
    \<and> (\<forall>i < unat nb. \<forall>kv \<in> set (foldl (\<lambda>rb kv. snd (rehash_node_handler np m nb [kv] rb)) rb ns ! i).
          unat (get_hash_value np m (fst kv) mod nb) = i)
    \<and> (\<forall>i < unat nb. distinct (map fst (foldl (\<lambda>rb kv. snd (rehash_node_handler np m nb [kv] rb)) rb ns ! i)))
    \<and> set (concat (foldl (\<lambda>rb kv. snd (rehash_node_handler np m nb [kv] rb)) rb ns))
        = set (concat rb) \<union> set ns"
  using assms(2-)
proof (induction ns arbitrary: rb)
  case Nil
  then show ?case by simp
next
  case (Cons kv ns)
  define b where "b = unat (get_hash_value np m (fst kv) mod nb)"
  define rb' where "rb' = rb[b := rb ! b @ [kv]]"
  have b: "b < length rb"
    using bucket_id_less[OF assms(1)] Cons.prems(1) by (simp add: b_def)
  have fresh: "fst kv \<notin> fst ` set (concat rb)"
    using Cons.prems(3) by auto
  then have fresh_b: "fst kv \<notin> fst ` set (rb ! b)"
    using nth_mem[OF b] by auto
  have step: "snd (rehash_node_handler np m nb [kv] rb) = rb'"
    using rehash_step_absent[of kv rb np m nb] fresh_b by (simp add: b_def rb'_def)
  have len: "length rb' = unat nb"
    using Cons.prems(1) by (simp add: rb'_def)
  have setc: "set (concat rb') = insert kv (set (concat rb))"
    unfolding rb'_def using b by (rule set_concat_snoc_update)
  have dist: "distinct (map fst ns)" and notin: "fst kv \<notin> fst ` set ns"
    using Cons.prems(2) by auto
  have disj: "fst ` set ns \<inter> fst ` set (concat rb') = {}"
    using Cons.prems(3) notin unfolding setc by auto
  have placed: "\<forall>i < length rb'. \<forall>x \<in> set (rb' ! i). unat (get_hash_value np m (fst x) mod nb) = i"
  proof (intro allI impI ballI)
    fix i x assume i: "i < length rb'" and x: "x \<in> set (rb' ! i)"
    show "unat (get_hash_value np m (fst x) mod nb) = i"
    proof (cases "i = b")
      case True
      with x b have "x \<in> set (rb ! b) \<or> x = kv" by (auto simp: rb'_def)
      then show ?thesis using Cons.prems(4) b True by (auto simp: b_def)
    next
      case False
      with x i have "x \<in> set (rb ! i)" "i < length rb" by (simp_all add: rb'_def)
      then show ?thesis using Cons.prems(4) by blast
    qed
  qed
  have distinct': "\<forall>i < length rb'. distinct (map fst (rb' ! i))"
  proof (intro allI impI)
    fix i assume i: "i < length rb'"
    show "distinct (map fst (rb' ! i))"
    proof (cases "i = b")
      case True
      then show ?thesis using Cons.prems(5) b fresh_b by (simp add: rb'_def)
    next
      case False
      then show ?thesis using Cons.prems(5) i by (simp add: rb'_def)
    qed
  qed
  have IH: "length (foldl (\<lambda>rb kv. snd (rehash_node_handler np m nb [kv] rb)) rb' ns) = unat nb
    \<and> (\<forall>i < unat nb. \<forall>kv \<in> set (foldl (\<lambda>rb kv. snd (rehash_node_handler np m nb [kv] rb)) rb' ns ! i).
          unat (get_hash_value np m (fst kv) mod nb) = i)
    \<and> (\<forall>i < unat nb. distinct (map fst (foldl (\<lambda>rb kv. snd (rehash_node_handler np m nb [kv] rb)) rb' ns ! i)))
    \<and> set (concat (foldl (\<lambda>rb kv. snd (rehash_node_handler np m nb [kv] rb)) rb' ns))
        = set (concat rb') \<union> set ns"
    by (rule Cons.IH[OF len dist disj placed distinct'])
  show ?case
    unfolding foldl_Cons step using IH setc by auto
qed

lemma set_concat_map_rev: "set (concat (map rev cs)) = set (concat cs)"
  by (induction cs) auto

lemma distinct_map_rev: "distinct (map f (rev xs)) = distinct (map f xs)"
  by (metis distinct_rev rev_map)

lemma distinct_keys_concat_map_rev:
  "distinct (map fst (concat (map rev cs))) = distinct (map fst (concat cs))"
proof (induction cs)
  case Nil
  then show ?case by simp
next
  case (Cons c cs)
  have "set (concat (map rev cs)) = set (concat cs)"
    by (rule set_concat_map_rev)
  then have "fst ` set (concat (map rev cs)) = fst ` set (concat cs)"
    by simp
  then show ?case
    using Cons.IH by (simp add: distinct_map_rev del: set_concat)
qed

lemma distinct_keys_concat:
  assumes "\<forall>i < length bs. distinct (map fst (bs ! i))"
    and "\<forall>i < length bs. \<forall>j < length bs. i \<noteq> j \<longrightarrow> fst ` set (bs ! i) \<inter> fst ` set (bs ! j) = {}"
  shows "distinct (map fst (concat bs))"
  using assms
proof (induction bs rule: rev_induct)
  case Nil
  then show ?case by simp
next
  case (snoc c bs)
  have d: "\<forall>i < length bs. distinct (map fst (bs ! i))"
  proof (intro allI impI)
    fix i assume "i < length bs"
    then show "distinct (map fst (bs ! i))"
      using snoc.prems(1)[rule_format, of i] by (simp add: nth_append)
  qed
  have x: "\<forall>i < length bs. \<forall>j < length bs. i \<noteq> j \<longrightarrow> fst ` set (bs ! i) \<inter> fst ` set (bs ! j) = {}"
  proof (intro allI impI)
    fix i j assume "i < length bs" "j < length bs" "i \<noteq> j"
    then show "fst ` set (bs ! i) \<inter> fst ` set (bs ! j) = {}"
      using snoc.prems(2)[rule_format, of i j] by (simp add: nth_append)
  qed
  have dc: "distinct (map fst c)"
    using snoc.prems(1)[rule_format, of "length bs"] by simp
  have disj: "fst ` set (concat bs) \<inter> fst ` set c = {}"
  proof (rule ccontr)
    assume "fst ` set (concat bs) \<inter> fst ` set c \<noteq> {}"
    then obtain k where k: "k \<in> fst ` set (concat bs)" "k \<in> fst ` set c" by blast
    then obtain b where "b \<in> set bs" "k \<in> fst ` set b" by auto
    then obtain i where i: "i < length bs" "bs ! i = b" by (auto simp: in_set_conv_nth)
    have "fst ` set ((bs @ [c]) ! i) \<inter> fst ` set ((bs @ [c]) ! length bs) = {}"
      using snoc.prems(2)[rule_format, of i "length bs"] i(1) by simp
    then have "fst ` set b \<inter> fst ` set c = {}"
      using i by (simp add: nth_append)
    with k(2) \<open>k \<in> fst ` set b\<close> show False by blast
  qed
  show ?case
    using snoc.IH[OF d x] dc disj by (simp del: set_concat)
qed

lemma map_inv_distinct_keys:
  assumes "map_inv np m"
  shows "distinct (map fst (entries m))"
  unfolding entries_def
proof (rule distinct_keys_concat)
  show "\<forall>i < length (buckets m). distinct (map fst (buckets m ! i))"
    using assms by (simp add: map_inv_def)
  show "\<forall>i < length (buckets m). \<forall>j < length (buckets m). i \<noteq> j \<longrightarrow>
          fst ` set (buckets m ! i) \<inter> fst ` set (buckets m ! j) = {}"
  proof (intro allI impI)
    fix i j assume ij: "i < length (buckets m)" "j < length (buckets m)" "i \<noteq> j"
    show "fst ` set (buckets m ! i) \<inter> fst ` set (buckets m ! j) = {}"
    proof (rule ccontr)
      assume "fst ` set (buckets m ! i) \<inter> fst ` set (buckets m ! j) \<noteq> {}"
      then obtain k where k: "k \<in> fst ` set (buckets m ! i)" "k \<in> fst ` set (buckets m ! j)"
        by blast
      have "i = unat (get_hash_value np m k mod n_buckets m)"
        using map_inv_other_bucket[OF assms ij(1), of k] k(1) by blast
      moreover have "j = unat (get_hash_value np m k mod n_buckets m)"
        using map_inv_other_bucket[OF assms ij(2), of k] k(2) by blast
      ultimately show False using ij(3) by simp
    qed
  qed
qed

lemma lookup_Some_iff:
  "map_inv np m \<Longrightarrow> lookup m key = Some v \<longleftrightarrow> (key, v) \<in> set (entries m)"
  unfolding lookup_def by (rule map_of_eq_Some_iff) (rule map_inv_distinct_keys)

lemma get_hash_value_hasher:
  "hasher m' = hasher m \<Longrightarrow> get_hash_value np m' = get_hash_value np m"
  by (simp add: get_hash_value_def fun_eq_iff)

lemma rehash_n_keep:
  "nb \<le> n_buckets m \<Longrightarrow> rehash_n np m nb = Some m"
  by (simp add: rehash_n_def)

lemma rehash_n_grow:
  assumes grow: "\<not> nb \<le> n_buckets m"
    and len: "length (buckets m) = unat (n_buckets m)"
    and dist: "distinct (map fst (entries m))"
  shows "\<exists>bs. rehash_n np m nb = Some (m\<lparr>buckets := bs, n_buckets := nb\<rparr>)
           \<and> map_inv np (m\<lparr>buckets := bs, n_buckets := nb\<rparr>)
           \<and> set (concat bs) = set (entries m)"
proof -
  define step where "step = (\<lambda>rb kv. snd (rehash_node_handler np m nb [kv] rb))"
  define bs where "bs = foldl step (replicate (unat nb) []) (concat (map rev (buckets m)))"
  have nz: "nb \<noteq> 0"
    using grow by auto
  have r: "rehash_n np m nb = Some (m\<lparr>buckets := bs, n_buckets := nb\<rparr>)"
    using grow len by (simp add: rehash_n_def rehash_fold_flat bs_def step_def)
  have d: "distinct (map fst (concat (map rev (buckets m))))"
    using dist by (simp add: distinct_keys_concat_map_rev entries_def)
  have inv: "length bs = unat nb
    \<and> (\<forall>i < unat nb. \<forall>kv \<in> set (bs ! i). unat (get_hash_value np m (fst kv) mod nb) = i)
    \<and> (\<forall>i < unat nb. distinct (map fst (bs ! i)))
    \<and> set (concat bs) = set (concat (replicate (unat nb) [])) \<union> set (concat (map rev (buckets m)))"
    unfolding bs_def step_def
    by (rule rehash_fold_inv[OF nz _ d]) simp_all
  have gh: "get_hash_value np (m\<lparr>buckets := bs, n_buckets := nb\<rparr>) = get_hash_value np m"
    by (rule get_hash_value_hasher) simp
  have "map_inv np (m\<lparr>buckets := bs, n_buckets := nb\<rparr>)"
    unfolding map_inv_def gh using inv nz by simp
  moreover have "set (concat bs) = set (entries m)"
    using inv set_concat_map_rev[of "buckets m"] by (simp add: entries_def del: set_concat)
  ultimately show ?thesis using r by blast
qed

lemma option_eqI:
  "(\<And>v. a = Some v \<longleftrightarrow> b = Some v) \<Longrightarrow> a = (b :: 'a option)"
  by (cases a; cases b) auto

lemma rehash_n_correct:
  assumes "map_inv np m"
  shows "\<exists>m'. rehash_n np m nb = Some m' \<and> map_inv np m'
           \<and> set (entries m') = set (entries m)
           \<and> (\<forall>key. lookup m' key = lookup m key)
           \<and> n_keys m' = n_keys m \<and> max_load_factor m' = max_load_factor m
           \<and> hasher m' = hasher m
           \<and> n_buckets m' = (if nb \<le> n_buckets m then n_buckets m else nb)"
proof (cases "nb \<le> n_buckets m")
  case True
  then show ?thesis using assms by (simp add: rehash_n_keep)
next
  case False
  have len: "length (buckets m) = unat (n_buckets m)"
    using assms by (simp add: map_inv_def)
  from rehash_n_grow[OF False len map_inv_distinct_keys[OF assms], of np]
  obtain bs where bs: "rehash_n np m nb = Some (m\<lparr>buckets := bs, n_buckets := nb\<rparr>)"
    "map_inv np (m\<lparr>buckets := bs, n_buckets := nb\<rparr>)"
    "set (concat bs) = set (entries m)" by blast
  define m' where "m' = m\<lparr>buckets := bs, n_buckets := nb\<rparr>"
  have e: "set (entries m') = set (entries m)"
    using bs(3) by (simp add: m'_def entries_def)
  have "lookup m' key = lookup m key" for key
    by (rule option_eqI) (simp add: lookup_Some_iff[OF bs(2)[folded m'_def]] lookup_Some_iff[OF assms] e)
  then show ?thesis
    using bs(1,2) e False by (simp add: m'_def)
qed

section \<open>get, has, unset\<close>

lemma get_with_hash_chain:
  assumes "n_buckets m \<noteq> 0" and "unat (h mod n_buckets m) < length (buckets m)"
  shows "get_with_hash m key h d =
           Some (case map_of (buckets m ! unat (h mod n_buckets m)) key of
                   None \<Rightarrow> d | Some v \<Rightarrow> v, m)"
  using assms
  by (simp add: get_with_hash_def hash_node_apply_def Let_def get_recursive)

lemma has_with_hash_chain:
  assumes "n_buckets m \<noteq> 0" and "unat (h mod n_buckets m) < length (buckets m)"
  shows "has_with_hash m key h =
           Some (key \<in> fst ` set (buckets m ! unat (h mod n_buckets m)), m)"
  using assms
  by (simp add: has_with_hash_def hash_node_apply_def Let_def has_recursive)

lemma lookup_None_iff: "lookup m key = None \<longleftrightarrow> key \<notin> fst ` set (entries m)"
  by (simp add: lookup_def map_of_eq_None_iff)

lemma unset_with_hash_chain_absent:
  assumes "n_buckets m \<noteq> 0" and "unat (h mod n_buckets m) < length (buckets m)"
    and "key \<notin> fst ` set (buckets m ! unat (h mod n_buckets m))"
  shows "unset_with_hash m key h = Some m"
  using assms
  by (simp add: unset_with_hash_def hash_node_apply_def Let_def unset_recursive_absent)

lemma wf_bucket_id:
  "n_buckets m \<noteq> 0 \<Longrightarrow> length (buckets m) = unat (n_buckets m) \<Longrightarrow>
   unat (h mod n_buckets m) < length (buckets m)"
  by (simp add: bucket_id_less)

section \<open>clear\<close>

lemma reset_buckets_wf:
  "length (buckets m) = unat (n_buckets m) \<Longrightarrow>
   reset_buckets m = Some (replicate (unat (n_buckets m)) [])"
  by (simp add: reset_buckets_def)

lemma get_with_hash_empty:
  assumes "n_buckets m \<noteq> 0" and "buckets m = replicate (unat (n_buckets m)) []"
  shows "get_with_hash m key h d = Some (d, m)"
proof -
  have b: "unat (h mod n_buckets m) < length (buckets m)"
    using assms by (simp add: bucket_id_less)
  then have "buckets m ! unat (h mod n_buckets m) = []"
    using assms(2) by (metis length_replicate nth_replicate)
  then show ?thesis
    using get_with_hash_chain[OF assms(1) b, of key d] by simp
qed

lemma has_with_hash_empty:
  assumes "n_buckets m \<noteq> 0" and "buckets m = replicate (unat (n_buckets m)) []"
  shows "has_with_hash m key h = Some (False, m)"
proof -
  have b: "unat (h mod n_buckets m) < length (buckets m)"
    using assms by (simp add: bucket_id_less)
  then have "buckets m ! unat (h mod n_buckets m) = []"
    using assms(2) by (metis length_replicate nth_replicate)
  then show ?thesis
    using has_with_hash_chain[OF assms(1) b, of key] by simp
qed

lemma clear_wf:
  "length (buckets m) = unat (n_buckets m) \<Longrightarrow>
   clear m = Some (m\<lparr>buckets := replicate (unat (n_buckets m)) [], n_keys := 0\<rparr>)"
  by (simp add: clear_def reset_buckets_wf)

lemma resize_replicate: "resize (replicate n x) k x = replicate k x"
proof -
  have "resize (replicate n x) k x = replicate (min k n) x @ replicate (k - n) x"
    by (simp add: resize_def)
  also have "\<dots> = replicate (min k n + (k - n)) x"
    by (simp only: replicate_add)
  also have "min k n + (k - n) = k"
    by arith
  finally show ?thesis .
qed

lemma clear_and_shrink_wf:
  "length (buckets m) = unat (n_buckets m) \<Longrightarrow>
   clear_and_shrink m =
     Some (m\<lparr>buckets := replicate 11 [], n_keys := 0, n_buckets := 11\<rparr>)"
  by (simp add: clear_and_shrink_def reset_buckets_wf resize_replicate N_INITIAL_BUCKETS_def)

section \<open>Fields after a rehash\<close>

lemma rehash_n_fields:
  assumes "rehash_n np m nb = Some m'"
  shows "n_keys m' = n_keys m \<and> max_load_factor m' = max_load_factor m \<and> hasher m' = hasher m
    \<and> n_buckets m' = (if nb \<le> n_buckets m then n_buckets m else nb)
    \<and> (n_buckets m' = n_buckets m \<longrightarrow> m' = m)"
proof (cases "nb \<le> n_buckets m")
  case True
  then have "m' = m"
    using assms by (simp add: rehash_n_def)
  then show ?thesis using True by simp
next
  case False
  show ?thesis
  proof (cases "length (buckets m) < unat (n_buckets m)")
    case True
    then show ?thesis using assms False by (simp add: rehash_n_def)
  next
    case ok: False
    from assms False ok obtain bs where "m' = m\<lparr>buckets := bs, n_buckets := nb\<rparr>"
      by (simp add: rehash_n_def Let_def) blast
    then show ?thesis using False by auto
  qed
qed

lemma reserve_fields:
  assumes "reserve np m nmin = Some m'"
  shows "n_keys m' = n_keys m \<and> max_load_factor m' = max_load_factor m \<and> hasher m' = hasher m
    \<and> n_buckets m' = (if nmin \<le> n_buckets m \<or> get_n_rehashing_buckets nmin \<le> n_buckets m
                       then n_buckets m else get_n_rehashing_buckets nmin)
    \<and> (n_buckets m' = n_buckets m \<longrightarrow> m' = m)"
proof (cases "nmin \<le> n_buckets m")
  case True
  then have "m' = m"
    using assms by (simp add: reserve_def)
  then show ?thesis using True by simp
next
  case False
  then have "rehash_n np m (get_n_rehashing_buckets nmin) = Some m'"
    using assms by (simp add: reserve_def)
  from rehash_n_fields[OF this] show ?thesis
    using False by simp
qed

lemma rehash_Some:
  assumes "rehash np m = Some m'"
  shows "\<exists>nmin. max_load_factor m \<noteq> 0
           \<and> to_size_t (of_nat (unat (n_keys m)) / max_load_factor m) = Some nmin
           \<and> reserve np m nmin = Some m'"
proof (cases "max_load_factor m = 0")
  case True
  then show ?thesis using assms by (simp add: rehash_def)
next
  case False
  show ?thesis
  proof (cases "to_size_t (of_nat (unat (n_keys m)) / max_load_factor m)")
    case None
    then show ?thesis using assms False by (simp add: rehash_def)
  next
    case (Some nmin)
    then show ?thesis using assms False by (simp add: rehash_def)
  qed
qed

lemma rehash_fields:
  assumes "rehash np m = Some m'"
  shows "n_keys m' = n_keys m \<and> max_load_factor m' = max_load_factor m \<and> hasher m' = hasher m
    \<and> n_buckets m \<le> n_buckets m' \<and> (n_buckets m' = n_buckets m \<longrightarrow> m' = m)"
proof -
  from rehash_Some[OF assms] obtain nmin where r: "reserve np m nmin = Some m'"
    by blast
  have "n_buckets m \<le> n_buckets m'"
    using reserve_fields[OF r] by (auto simp: not_le split: if_splits)
  then show ?thesis
    using reserve_fields[OF r] by simp
qed

section \<open>set: the walk of the chain\<close>

lemma set_apply_absent:
  assumes "n_buckets m \<noteq> 0" and "unat (h mod n_buckets m) < length (buckets m)"
    and "key \<notin> fst ` set (buckets m ! unat (h mod n_buckets m))"
  shows "hash_node_apply m key h (set_node_handler key value reducer) (n_keys m) =
           Some (m\<lparr>buckets := (buckets m)[unat (h mod n_buckets m) :=
                        buckets m ! unat (h mod n_buckets m) @ [(key, value)]]\<rparr>,
                 n_keys m + 1)"
  using assms by (simp add: hash_node_apply_def Let_def set_recursive_absent)

lemma set_apply_present:
  assumes "n_buckets m \<noteq> 0" and "unat (h mod n_buckets m) < length (buckets m)"
    and "buckets m ! unat (h mod n_buckets m) = xs @ (key, v) # ys" and "key \<notin> fst ` set xs"
  shows "hash_node_apply m key h (set_node_handler key value reducer) (n_keys m) =
           Some (m\<lparr>buckets := (buckets m)[unat (h mod n_buckets m) :=
                        xs @ (key, reducer v value) # ys]\<rparr>,
                 n_keys m)"
  using assms by (simp add: hash_node_apply_def Let_def set_recursive_present)

lemma set_with_hash_stage:
  assumes "hash_node_apply m key h (set_node_handler key value reducer) (n_keys m) = Some (m1, nk)"
  shows "set_with_hash np m key h value reducer =
           (if rehash_needed (m1\<lparr>n_keys := nk\<rparr>) then rehash np (m1\<lparr>n_keys := nk\<rparr>)
            else Some (m1\<lparr>n_keys := nk\<rparr>))"
  using assms by (simp add: set_with_hash_def Let_def)

lemma hash_node_apply_fields:
  assumes "hash_node_apply m key h handler s = Some (m1, s1)"
  shows "n_buckets m1 = n_buckets m \<and> max_load_factor m1 = max_load_factor m
         \<and> hasher m1 = hasher m \<and> n_keys m1 = n_keys m
         \<and> length (buckets m1) = length (buckets m) \<and> n_buckets m \<noteq> 0"
proof (cases "n_buckets m = 0")
  case True
  then show ?thesis using assms by (simp add: hash_node_apply_def)
next
  case False
  show ?thesis
  proof (cases "unat (h mod n_buckets m) < length (buckets m)")
    case True
    obtain c s' where "hash_node_apply_recursive (buckets m ! unat (h mod n_buckets m)) key handler s = (c, s')"
      by (cases "hash_node_apply_recursive (buckets m ! unat (h mod n_buckets m)) key handler s")
    then have "m1 = m\<lparr>buckets := (buckets m)[unat (h mod n_buckets m) := c]\<rparr>"
      using assms False True by (simp add: hash_node_apply_def Let_def)
    then show ?thesis using False by simp
  next
    case False
    then show ?thesis using assms \<open>n_buckets m \<noteq> 0\<close> by (simp add: hash_node_apply_def Let_def)
  qed
qed

lemma set_with_hash_Some:
  assumes "set_with_hash np m key h value reducer = Some m'"
  shows "\<exists>m1 nk. hash_node_apply m key h (set_node_handler key value reducer) (n_keys m)
                    = Some (m1, nk)
           \<and> (if rehash_needed (m1\<lparr>n_keys := nk\<rparr>) then rehash np (m1\<lparr>n_keys := nk\<rparr>) = Some m'
               else m' = m1\<lparr>n_keys := nk\<rparr>)"
proof (cases "hash_node_apply m key h (set_node_handler key value reducer) (n_keys m)")
  case None
  then show ?thesis using assms by (simp add: set_with_hash_def)
next
  case (Some p)
  obtain m1 nk where p: "p = (m1, nk)" by (cases p)
  show ?thesis
    using assms Some unfolding p by (auto simp: set_with_hash_stage)
qed

section \<open>set: the load after the call\<close>


lemma word_le_uint: "(a :: size_t) \<le> b \<longleftrightarrow> uint a \<le> uint b"
  by (rule word_le_def)

lemma uint_174449: "uint (w :: size_t) \<le> 174449 \<longleftrightarrow> w \<le> 174449"
  by (simp add: word_le_def)


section \<open>set: invariant and stored values\<close>

lemma map_of_snoc_absent:
  "key \<notin> fst ` set c \<Longrightarrow> map_of (c @ [(key, value)]) = (map_of c)(key \<mapsto> value)"
  by (induction c) (auto simp: fun_eq_iff)

lemma map_of_replace_first:
  "key \<notin> fst ` set xs \<Longrightarrow>
   map_of (xs @ (key, w) # ys) = (map_of (xs @ (key, v) # ys))(key \<mapsto> w)"
  by (induction xs) (auto simp: fun_eq_iff)

lemma map_inv_update_bucket:
  assumes inv: "map_inv np m" and b: "b < length (buckets m)"
    and pl: "\<forall>kv \<in> set c'. unat (get_hash_value np m (fst kv) mod n_buckets m) = b"
    and d: "distinct (map fst c')"
  shows "map_inv np (m\<lparr>buckets := (buckets m)[b := c'], n_keys := nk\<rparr>)"
proof -
  define m2 where "m2 = m\<lparr>buckets := (buckets m)[b := c'], n_keys := nk\<rparr>"
  have gh: "get_hash_value np m2 = get_hash_value np m"
    by (rule get_hash_value_hasher) (simp add: m2_def)
  have f: "n_buckets m2 = n_buckets m" "length (buckets m2) = length (buckets m)"
    by (simp_all add: m2_def)
  have nth: "buckets m2 ! i = (if i = b then c' else buckets m ! i)" if "i < length (buckets m)" for i
    using that by (simp add: m2_def nth_list_update)
  have "\<forall>i < length (buckets m2). \<forall>kv \<in> set (buckets m2 ! i).
          unat (get_hash_value np m2 (fst kv) mod n_buckets m2) = i"
    unfolding gh f using inv pl by (simp add: nth map_inv_def)
  moreover have "\<forall>i < length (buckets m2). distinct (map fst (buckets m2 ! i))"
    unfolding f using inv d by (simp add: nth map_inv_def)
  ultimately show ?thesis
    unfolding m2_def[symmetric] using inv by (simp add: map_inv_def f)
qed

lemma lookup_update_bucket:
  assumes inv: "map_inv np m" and b: "b < length (buckets m)"
    and inv2: "map_inv np (m\<lparr>buckets := (buckets m)[b := c'], n_keys := nk\<rparr>)"
  shows "lookup (m\<lparr>buckets := (buckets m)[b := c'], n_keys := nk\<rparr>) k =
           (if unat (get_hash_value np m k mod n_buckets m) = b then map_of c' k else lookup m k)"
proof -
  define m2 where "m2 = m\<lparr>buckets := (buckets m)[b := c'], n_keys := nk\<rparr>"
  have gh: "get_hash_value np m2 = get_hash_value np m"
    by (rule get_hash_value_hasher) (simp add: m2_def)
  have kb: "unat (get_hash_value np m k mod n_buckets m) < length (buckets m)"
    by (rule map_inv_bucket_id[OF inv])
  have "lookup m2 k = map_of (buckets m2 ! unat (get_hash_value np m k mod n_buckets m)) k"
    using lookup_bucket[OF inv2[folded m2_def], of k] by (simp add: gh) (simp add: m2_def)
  also have "\<dots> = (if unat (get_hash_value np m k mod n_buckets m) = b then map_of c' k
                    else map_of (buckets m ! unat (get_hash_value np m k mod n_buckets m)) k)"
    using kb b by (simp add: m2_def nth_list_update)
  finally show ?thesis
    unfolding m2_def by (simp add: lookup_bucket[OF inv, of k])
qed

lemma set_stage_correct:
  assumes inv: "map_inv np m"
    and st: "hash_node_apply m key (get_hash_value np m key)
               (set_node_handler key value reducer) (n_keys m) = Some (m1, nk)"
  shows "map_inv np (m1\<lparr>n_keys := nk\<rparr>)
    \<and> lookup (m1\<lparr>n_keys := nk\<rparr>) =
        (lookup m)(key \<mapsto> (case lookup m key of None \<Rightarrow> value | Some v \<Rightarrow> reducer v value))
    \<and> nk = (case lookup m key of None \<Rightarrow> n_keys m + 1 | Some v \<Rightarrow> n_keys m)"
proof -
  define b where "b = unat (get_hash_value np m key mod n_buckets m)"
  define c where "c = buckets m ! b"
  have nz: "n_buckets m \<noteq> 0" using inv by (simp add: map_inv_def)
  have b: "b < length (buckets m)"
    unfolding b_def by (rule map_inv_bucket_id[OF inv])
  note b' = b[unfolded b_def]
  have lk: "lookup m key = map_of c key"
    unfolding c_def b_def by (rule lookup_bucket[OF inv])
  have placed: "\<forall>kv \<in> set c. unat (get_hash_value np m (fst kv) mod n_buckets m) = b"
    using inv b by (simp add: map_inv_def c_def)
  have dc: "distinct (map fst c)"
    using inv b by (simp add: map_inv_def c_def)
  show ?thesis
  proof (cases "key \<in> fst ` set c")
    case absent: False
    define c' where "c' = c @ [(key, value)]"
    have "hash_node_apply m key (get_hash_value np m key)
            (set_node_handler key value reducer) (n_keys m)
          = Some (m\<lparr>buckets := (buckets m)[b := c']\<rparr>, n_keys m + 1)"
      using set_apply_absent[OF nz b', of key "value" reducer] absent
      by (simp add: c_def b_def c'_def)
    with st have m1: "m1 = m\<lparr>buckets := (buckets m)[b := c']\<rparr>" and nk: "nk = n_keys m + 1"
      by simp_all
    have m2: "m1\<lparr>n_keys := nk\<rparr> = m\<lparr>buckets := (buckets m)[b := c'], n_keys := nk\<rparr>"
      by (simp add: m1)
    have pl': "\<forall>kv \<in> set c'. unat (get_hash_value np m (fst kv) mod n_buckets m) = b"
      using placed by (simp add: c'_def b_def)
    have d': "distinct (map fst c')"
      using dc absent by (simp add: c'_def)
    have inv2: "map_inv np (m\<lparr>buckets := (buckets m)[b := c'], n_keys := nk\<rparr>)"
      by (rule map_inv_update_bucket[OF inv b pl' d'])
    have none: "lookup m key = None"
      using absent by (simp add: lk map_of_eq_None_iff)
    have "lookup (m\<lparr>buckets := (buckets m)[b := c'], n_keys := nk\<rparr>) k
          = ((lookup m)(key \<mapsto> value)) k" for k
    proof (cases "unat (get_hash_value np m k mod n_buckets m) = b")
      case True
      then have lkk: "lookup m k = map_of c k"
        using lookup_bucket[OF inv, of k] by (simp add: c_def)
      have "lookup (m\<lparr>buckets := (buckets m)[b := c'], n_keys := nk\<rparr>) k = map_of c' k"
        using True by (simp add: lookup_update_bucket[OF inv b inv2])
      also have "\<dots> = ((map_of c)(key \<mapsto> value)) k"
        by (simp only: c'_def map_of_snoc_absent[OF absent])
      also have "\<dots> = ((lookup m)(key \<mapsto> value)) k"
        using lkk by simp
      finally show ?thesis .
    next
      case False
      then have "k \<noteq> key" by (auto simp: b_def)
      then show ?thesis
        using False by (simp add: lookup_update_bucket[OF inv b inv2])
    qed
    then have "lookup (m\<lparr>buckets := (buckets m)[b := c'], n_keys := nk\<rparr>)
               = (lookup m)(key \<mapsto> value)"
      by (rule ext)
    then show ?thesis
      unfolding m2 using inv2 none nk by simp
  next
    case present: True
    from chain_split_first[OF present] obtain xs v ys where
      c: "c = xs @ (key, v) # ys" and xs: "key \<notin> fst ` set xs" and mv: "map_of c key = Some v"
      by blast
    define c' where "c' = xs @ (key, reducer v value) # ys"
    have "hash_node_apply m key (get_hash_value np m key)
            (set_node_handler key value reducer) (n_keys m)
          = Some (m\<lparr>buckets := (buckets m)[b := c']\<rparr>, n_keys m)"
      using set_apply_present[OF nz b' _ xs, of v ys "value" reducer] c
      by (simp add: c_def b_def c'_def)
    with st have m1: "m1 = m\<lparr>buckets := (buckets m)[b := c']\<rparr>" and nk: "nk = n_keys m"
      by simp_all
    have m2: "m1\<lparr>n_keys := nk\<rparr> = m\<lparr>buckets := (buckets m)[b := c'], n_keys := nk\<rparr>"
      by (simp add: m1)
    have keys: "map fst c' = map fst c"
      by (simp add: c'_def c)
    have "fst ` set c' = fst ` set c"
      using keys by (metis list.set_map)
    then have pl': "\<forall>kv \<in> set c'. unat (get_hash_value np m (fst kv) mod n_buckets m) = b"
      using placed by (metis (no_types, lifting) imageE imageI)
    have d': "distinct (map fst c')"
      using dc by (simp add: keys)
    have inv2: "map_inv np (m\<lparr>buckets := (buckets m)[b := c'], n_keys := nk\<rparr>)"
      by (rule map_inv_update_bucket[OF inv b pl' d'])
    have some: "lookup m key = Some v"
      using mv by (simp add: lk)
    have mo: "map_of c' = (map_of c)(key \<mapsto> reducer v value)"
      unfolding c'_def c by (rule map_of_replace_first[OF xs])
    have "lookup (m\<lparr>buckets := (buckets m)[b := c'], n_keys := nk\<rparr>) k
          = ((lookup m)(key \<mapsto> reducer v value)) k" for k
    proof (cases "unat (get_hash_value np m k mod n_buckets m) = b")
      case True
      then have lkk: "lookup m k = map_of c k"
        using lookup_bucket[OF inv, of k] by (simp add: c_def)
      have "lookup (m\<lparr>buckets := (buckets m)[b := c'], n_keys := nk\<rparr>) k = map_of c' k"
        using True by (simp add: lookup_update_bucket[OF inv b inv2])
      also have "\<dots> = ((map_of c)(key \<mapsto> reducer v value)) k"
        by (simp only: mo)
      also have "\<dots> = ((lookup m)(key \<mapsto> reducer v value)) k"
        using lkk by simp
      finally show ?thesis .
    next
      case False
      then have "k \<noteq> key" by (auto simp: b_def)
      then show ?thesis
        using False by (simp add: lookup_update_bucket[OF inv b inv2])
    qed
    then have "lookup (m\<lparr>buckets := (buckets m)[b := c'], n_keys := nk\<rparr>)
               = (lookup m)(key \<mapsto> reducer v value)"
      by (rule ext)
    then show ?thesis
      unfolding m2 using inv2 some nk by simp
  qed
qed

lemma rehash_correct:
  assumes inv: "map_inv np m" and r: "rehash np m = Some m'"
  shows "map_inv np m' \<and> lookup m' = lookup m \<and> set (entries m') = set (entries m)"
proof -
  from rehash_Some[OF r] obtain nmin where res: "reserve np m nmin = Some m'"
    by blast
  show ?thesis
  proof (cases "nmin \<le> n_buckets m")
    case True
    then have "m' = m" using res by (simp add: reserve_def)
    then show ?thesis using inv by simp
  next
    case False
    then have rn: "rehash_n np m (get_n_rehashing_buckets nmin) = Some m'"
      using res by (simp add: reserve_def)
    from rehash_n_correct[OF inv, of "get_n_rehashing_buckets nmin"] rn
    have "map_inv np m'" "set (entries m') = set (entries m)" "\<forall>key. lookup m' key = lookup m key"
      by auto
    then show ?thesis by (auto simp: fun_eq_iff)
  qed
qed

lemma set_with_hash_correct:
  assumes inv: "map_inv np m"
    and s: "set_with_hash np m key (get_hash_value np m key) value reducer = Some m'"
  shows "map_inv np m'
    \<and> lookup m' =
        (lookup m)(key \<mapsto> (case lookup m key of None \<Rightarrow> value | Some v \<Rightarrow> reducer v value))
    \<and> n_keys m' = (case lookup m key of None \<Rightarrow> n_keys m + 1 | Some v \<Rightarrow> n_keys m)"
proof -
  from set_with_hash_Some[OF s] obtain m1 nk where
    st: "hash_node_apply m key (get_hash_value np m key)
           (set_node_handler key value reducer) (n_keys m) = Some (m1, nk)"
    and fin: "if rehash_needed (m1\<lparr>n_keys := nk\<rparr>) then rehash np (m1\<lparr>n_keys := nk\<rparr>) = Some m'
              else m' = m1\<lparr>n_keys := nk\<rparr>"
    by blast
  note sc = set_stage_correct[OF inv st]
  show ?thesis
  proof (cases "rehash_needed (m1\<lparr>n_keys := nk\<rparr>)")
    case False
    then have m': "m' = m1\<lparr>n_keys := nk\<rparr>" using fin by simp
    have "n_keys m' = nk" by (simp add: m')
    then show ?thesis using sc unfolding m' by blast
  next
    case True
    then have r: "rehash np (m1\<lparr>n_keys := nk\<rparr>) = Some m'" using fin by simp
    have "map_inv np (m1\<lparr>n_keys := nk\<rparr>)" using sc by blast
    from rehash_correct[OF this r] have "map_inv np m'" "lookup m' = lookup (m1\<lparr>n_keys := nk\<rparr>)"
      by blast+
    moreover have "n_keys m' = nk"
      using rehash_fields[OF r] by simp
    ultimately show ?thesis
      using sc by metis
  qed
qed

section \<open>Evaluating the invariant\<close>

lemma chains_inv_iff:
  "chains_inv np m k cs \<longleftrightarrow>
     (\<forall>i < length cs. (\<forall>kv \<in> set (cs ! i).
          unat (get_hash_value np m (fst kv) mod n_buckets m) = k + i)
        \<and> distinct (map fst (cs ! i)))"
proof (induction cs arbitrary: k)
  case Nil
  then show ?case by simp
next
  case (Cons c cs)
  have "(\<forall>i < length (c # cs). (\<forall>kv \<in> set ((c # cs) ! i).
            unat (get_hash_value np m (fst kv) mod n_buckets m) = k + i)
          \<and> distinct (map fst ((c # cs) ! i)))
        \<longleftrightarrow> ((\<forall>kv \<in> set c. unat (get_hash_value np m (fst kv) mod n_buckets m) = k)
               \<and> distinct (map fst c))
            \<and> (\<forall>i < length cs. (\<forall>kv \<in> set (cs ! i).
                   unat (get_hash_value np m (fst kv) mod n_buckets m) = k + 1 + i)
                 \<and> distinct (map fst (cs ! i)))"
    by (simp add: All_less_Suc2)
  then show ?case
    by (simp add: Cons.IH)
qed

lemma map_inv_chains:
  "map_inv np m \<longleftrightarrow>
     n_buckets m \<noteq> 0 \<and> length (buckets m) = unat (n_buckets m) \<and> chains_inv np m 0 (buckets m)"
  by (auto simp: map_inv_def chains_inv_iff)

lemma floor_divide_numeral_rat: "\<lfloor>(numeral a :: rat) / numeral b\<rfloor> = numeral a div numeral b"
  by (metis floor_divide_of_int_eq of_int_numeral)

lemma ConcurrentMap_inv: "map_inv np (ConcurrentMap h)"
  by (simp add: map_inv_def ConcurrentMap_def N_INITIAL_BUCKETS_def)

lemma small_map_inv: "map_inv 1 small_map"
  by (simp add: map_inv_chains small_map_def get_hash_value_def)

lemma loaded_map_inv: "map_inv 1 loaded_map"
  by (simp add: map_inv_chains loaded_map_def get_hash_value_def)

lemmas set_key_eval =
  set_key_def set_with_hash_def hash_node_apply_def get_hash_value_def Let_def
  set_node_handler_def rehash_needed_def rehash_def to_size_t_def reserve_def
  floor_divide_numeral_rat

lemma loaded_map_overload: "set_key 1 loaded_map 22 0 (+) = Some overloaded_map"
  by (simp add: set_key_eval loaded_map_def overloaded_map_def)

section \<open>The example maps are built by the operations\<close>

lemma replicate_11: "replicate 11 x = [x, x, x, x, x, x, x, x, x, x, x]"
  by (simp add: numeral_eq_Suc)


lemma ConcurrentMap_of_nat:
  "(ConcurrentMap of_nat :: (nat, nat) concurrent_map) =
     \<lparr>n_keys = 0, n_buckets = 11, max_load_factor = 1, hasher = of_nat,
      buckets = [[], [], [], [], [], [], [], [], [], [], []]\<rparr>"
  by (simp add: ConcurrentMap_def N_INITIAL_BUCKETS_def DEFAULT_MAX_LOAD_FACTOR_def replicate_11)

lemma small_map_built:
  "Option.bind (Option.bind (set_key 1 (ConcurrentMap of_nat) 1 10 (+))
                  (\<lambda>m. set_key 1 m 5 50 (+)))
     (\<lambda>m. set_key 1 m 16 60 (+)) = Some small_map"
  by (simp add: ConcurrentMap_of_nat set_key_eval small_map_def)

lemma loaded_map_built:
  "foldl (\<lambda>r key. Option.bind r (\<lambda>m. set_key 1 m key 0 (+)))
     (Some (set_max_load_factor (ConcurrentMap of_nat) 2))
     [0, 1, 2, 3, 4, 5, 6, 7, 8, 9, 10, 11, 12, 13, 14, 15, 16, 17, 18, 19, 20, 21]
   = Some loaded_map"
  by (simp add: ConcurrentMap_of_nat set_max_load_factor_def set_key_eval loaded_map_def)



section \<open>get\<close>

text \<open>
  Claim C9. For every map that satisfies the representation invariant, every key and every
  default value, \<^verbatim>\<open>get\<close> (that is, \<^verbatim>\<open>get_with_hash\<close> at the hash value of the key) returns
  the value stored for the key if the key is present and the default value if it is absent,
  and leaves the map as it was: the same \<^verbatim>\<open>n_keys\<close>, \<^verbatim>\<open>n_buckets\<close> and chains.
\<close>

theorem get_with_hash_returns:
  assumes "map_inv n_procs m"
  shows "get_with_hash m key (get_hash_value n_procs m key) default_value =
           Some (case lookup m key of None \<Rightarrow> default_value | Some v \<Rightarrow> v, m)"
proof -
  have nz: "n_buckets m \<noteq> 0"
    using assms by (simp add: map_inv_def)
  show ?thesis
    using get_with_hash_chain[where key = key and d = default_value, OF nz map_inv_bucket_id[OF assms]]
    by (simp add: lookup_bucket[OF assms])
qed

theorem get_with_hash_returns_witness:
  "map_inv 1 small_map
   \<and> get_with_hash small_map 16 (get_hash_value 1 small_map 16) 0 = Some (60, small_map)
   \<and> get_with_hash small_map 27 (get_hash_value 1 small_map 27) 0 = Some (0, small_map)"
proof -
  have inv: "map_inv 1 small_map"
    by (simp add: map_inv_chains small_map_def get_hash_value_def)
  have "lookup small_map 16 = Some 60" "lookup small_map 27 = None"
    by (simp_all add: lookup_def entries_def small_map_def)
  then show ?thesis
    using inv get_with_hash_returns[where key = 16 and default_value = 0, OF inv]
      get_with_hash_returns[where key = 27 and default_value = 0, OF inv]
    by simp
qed

section \<open>unset of an absent key\<close>

text \<open>
  Claim C10. For every map with a bucket array of \<^verbatim>\<open>n_buckets > 0\<close> slots and every key that
  is stored nowhere in the map, \<^verbatim>\<open>unset\<close> changes nothing, whatever hash value it is called
  with: the map after the call is the map before it.
\<close>

theorem unset_absent_key:
  assumes "n_buckets m \<noteq> 0" and "length (buckets m) = unat (n_buckets m)"
    and "lookup m key = None"
  shows "unset_with_hash m key hash_value = Some m \<and> unset_key n_procs m key = Some m"
proof -
  have absent: "key \<notin> fst ` set (buckets m ! unat (h mod n_buckets m))" for h
  proof -
    have "unat (h mod n_buckets m) < length (buckets m)"
      using assms(1,2) by (rule wf_bucket_id)
    then have "set (buckets m ! unat (h mod n_buckets m)) \<subseteq> set (entries m)"
      unfolding entries_def using nth_mem by fastforce
    moreover have "key \<notin> fst ` set (entries m)"
      using assms(3) by (simp add: lookup_None_iff)
    ultimately show ?thesis by blast
  qed
  have "unset_with_hash m key h = Some m" for h
    using assms(1) wf_bucket_id[OF assms(1,2)] absent
    by (rule unset_with_hash_chain_absent)
  then show ?thesis
    by (simp add: unset_key_def)
qed

theorem unset_absent_key_witness:
  "n_buckets small_map \<noteq> 0 \<and> length (buckets small_map) = unat (n_buckets small_map)
   \<and> lookup small_map 27 = None
   \<and> unset_with_hash small_map 27 27 = Some small_map \<and> unset_key 1 small_map 27 = Some small_map"
proof -
  have h: "n_buckets small_map \<noteq> 0" "length (buckets small_map) = unat (n_buckets small_map)"
    "lookup small_map 27 = None"
    by (simp_all add: lookup_def entries_def small_map_def)
  from unset_absent_key[where hash_value = 27 and n_procs = 1, OF h] h show ?thesis
    by simp
qed

section \<open>clear and clear\_and\_shrink\<close>

text \<open>
  Claim C8. For every map with a bucket array of \<^verbatim>\<open>n_buckets > 0\<close> slots: after \<^verbatim>\<open>clear\<close>
  the key count is 0, no node is left, and \<^verbatim>\<open>get\<close> and \<^verbatim>\<open>has\<close> find no key, whatever the
  key and hash value; after \<^verbatim>\<open>clear_and_shrink\<close> the same holds and the bucket array is
  reset to the 11 empty buckets of the smallest prime of the table.
\<close>

theorem clear_empties:
  assumes "n_buckets m \<noteq> 0" and "length (buckets m) = unat (n_buckets m)"
  shows "\<exists>m1 m2. clear m = Some m1 \<and> n_keys m1 = 0 \<and> n_buckets m1 = n_buckets m
           \<and> entries m1 = []
           \<and> (\<forall>key h d. get_with_hash m1 key h d = Some (d, m1))
           \<and> (\<forall>key h. has_with_hash m1 key h = Some (False, m1))
           \<and> clear_and_shrink m = Some m2 \<and> n_keys m2 = 0 \<and> n_buckets m2 = 11
           \<and> buckets m2 = replicate 11 []
           \<and> (\<forall>key h d. get_with_hash m2 key h d = Some (d, m2))
           \<and> (\<forall>key h. has_with_hash m2 key h = Some (False, m2))"
proof -
  define m1 where "m1 = m\<lparr>buckets := replicate (unat (n_buckets m)) [], n_keys := 0\<rparr>"
  define m2 where "m2 = m\<lparr>buckets := replicate 11 [], n_keys := 0, n_buckets := 11\<rparr>"
  have c1: "clear m = Some m1"
    unfolding m1_def using assms(2) by (rule clear_wf)
  have c2: "clear_and_shrink m = Some m2"
    unfolding m2_def using assms(2) by (rule clear_and_shrink_wf)
  have e1: "n_buckets m1 \<noteq> 0" "buckets m1 = replicate (unat (n_buckets m1)) []"
    using assms(1) by (simp_all add: m1_def)
  have e2: "n_buckets m2 \<noteq> 0" "buckets m2 = replicate (unat (n_buckets m2)) []"
    by (simp_all add: m2_def)
  have "entries m1 = []"
    by (simp add: entries_def m1_def)
  moreover have "n_keys m1 = 0" "n_buckets m1 = n_buckets m"
    "n_keys m2 = 0" "n_buckets m2 = 11" "buckets m2 = replicate 11 []"
    by (simp_all add: m1_def m2_def)
  ultimately show ?thesis
    using c1 c2 get_with_hash_empty[OF e1] has_with_hash_empty[OF e1]
      get_with_hash_empty[OF e2] has_with_hash_empty[OF e2]
    by blast
qed

theorem clear_empties_witness:
  "n_buckets small_map \<noteq> 0 \<and> length (buckets small_map) = unat (n_buckets small_map)
   \<and> clear small_map = Some (small_map\<lparr>buckets := replicate 11 [], n_keys := 0\<rparr>)
   \<and> get_with_hash (small_map\<lparr>buckets := replicate 11 [], n_keys := 0\<rparr>) 16 16 0
       = Some (0, small_map\<lparr>buckets := replicate 11 [], n_keys := 0\<rparr>)
   \<and> clear_and_shrink small_map = Some (small_map\<lparr>buckets := replicate 11 [], n_keys := 0\<rparr>)"
proof -
  have h: "n_buckets small_map \<noteq> 0" "length (buckets small_map) = unat (n_buckets small_map)"
    by (simp_all add: small_map_def)
  have c: "clear small_map = Some (small_map\<lparr>buckets := replicate 11 [], n_keys := 0\<rparr>)"
    by (simp add: clear_def reset_buckets_def small_map_def)
  have cs: "clear_and_shrink small_map = Some (small_map\<lparr>buckets := replicate 11 [], n_keys := 0\<rparr>)"
    by (simp add: clear_and_shrink_def reset_buckets_def small_map_def resize_def
        N_INITIAL_BUCKETS_def)
  from clear_empties[OF h] c have
    "get_with_hash (small_map\<lparr>buckets := replicate 11 [], n_keys := 0\<rparr>) 16 16 0
       = Some (0, small_map\<lparr>buckets := replicate 11 [], n_keys := 0\<rparr>)"
    by auto
  then show ?thesis
    using h c cs by simp
qed

section \<open>Rehashing keeps the contents\<close>

text \<open>
  Claim C6. For every map that satisfies the representation invariant and every requested
  bucket count, the rehash returns, the set of keys stored after it is the set stored
  before it, and every key has the value it had: the nodes are the same and \<open>lookup\<close> is
  unchanged. The key count is unchanged too, and the invariant holds again for the new
  bucket array.
\<close>

theorem rehash_n_preserves:
  assumes "map_inv n_procs m"
  shows "\<exists>m'. rehash_n n_procs m n_rehashing_buckets = Some m'
           \<and> fst ` set (entries m') = fst ` set (entries m)
           \<and> set (entries m') = set (entries m)
           \<and> (\<forall>key. lookup m' key = lookup m key)
           \<and> n_keys m' = n_keys m
           \<and> map_inv n_procs m'
           \<and> n_buckets m' = (if n_rehashing_buckets \<le> n_buckets m then n_buckets m
                              else n_rehashing_buckets)"
proof -
  from rehash_n_correct[OF assms, of n_rehashing_buckets] obtain m' where
    m': "rehash_n n_procs m n_rehashing_buckets = Some m'" "map_inv n_procs m'"
      "set (entries m') = set (entries m)" "\<forall>key. lookup m' key = lookup m key"
      "n_keys m' = n_keys m"
      "n_buckets m' = (if n_rehashing_buckets \<le> n_buckets m then n_buckets m
                       else n_rehashing_buckets)"
    by blast
  have "fst ` set (entries m') = fst ` set (entries m)"
    using m'(3) by simp
  then show ?thesis
    using m' by blast
qed

lemma small_map_rehash:
  "rehash_n 1 small_map 17 =
     Some (small_map\<lparr>buckets := [[], [(1, 10)], [], [], [], [(5, 50)], [], [], [], [], [], [],
                                    [], [], [], [], [(16, 60)]],
                       n_buckets := 17\<rparr>)"
proof -
  have r: "replicate 17 [] = [[], [], [], [], [], [], [], [], [], [], [], [], [], [], [], [], [] :: (nat, nat) chain]"
    by (simp add: numeral_eq_Suc)
  show ?thesis
    by (simp add: rehash_n_def small_map_def rehash_node_handler_def rehashing_node_handler_def
        get_hash_value_def Let_def r)
qed

theorem rehash_n_preserves_witness:
  "map_inv 1 small_map
   \<and> rehash_n 1 small_map 17 =
       Some (small_map\<lparr>buckets := [[], [(1, 10)], [], [], [], [(5, 50)], [], [], [], [], [], [],
                                      [], [], [], [], [(16, 60)]],
                         n_buckets := 17\<rparr>)
   \<and> lookup (small_map\<lparr>buckets := [[], [(1, 10)], [], [], [], [(5, 50)], [], [], [], [], [], [],
                                     [], [], [], [], [(16, 60)]],
                        n_buckets := 17\<rparr>) 16 = Some 60"
proof -
  have inv: "map_inv 1 small_map"
    by (simp add: map_inv_chains small_map_def get_hash_value_def)
  have "lookup small_map 16 = Some 60"
    by (simp add: lookup_def entries_def small_map_def)
  then show ?thesis
    using inv small_map_rehash rehash_n_preserves[where n_rehashing_buckets = 17, OF inv]
    by auto
qed

section \<open>The load after set\<close>




section \<open>set returns\<close>

lemma hash_node_apply_Some:
  assumes "n_buckets m \<noteq> 0" and "length (buckets m) = unat (n_buckets m)"
  shows "\<exists>c s'. hash_node_apply m key h handler s =
           Some (m\<lparr>buckets := (buckets m)[unat (h mod n_buckets m) := c]\<rparr>, s')"
proof -
  have b: "unat (h mod n_buckets m) < length (buckets m)"
    using assms by (rule wf_bucket_id)
  obtain c s' where
    "hash_node_apply_recursive (buckets m ! unat (h mod n_buckets m)) key handler s = (c, s')"
    by (cases "hash_node_apply_recursive (buckets m ! unat (h mod n_buckets m)) key handler s")
  then have "hash_node_apply m key h handler s =
           Some (m\<lparr>buckets := (buckets m)[unat (h mod n_buckets m) := c]\<rparr>, s')"
    using assms(1) b by (simp add: hash_node_apply_def Let_def)
  then show ?thesis by blast
qed

lemma to_size_t_Some:
  assumes "1 \<le> L"
  shows "\<exists>w. to_size_t (of_nat (unat (n :: size_t)) / L) = Some w"
proof -
  define q :: rat where "q = of_nat (unat n) / L"
  have L: "0 < L" using assms by simp
  have q0: "0 \<le> q"
    unfolding q_def using L by (intro divide_nonneg_pos of_nat_0_le_iff)
  have "(of_nat (unat n) :: rat) / L \<le> of_nat (unat n) / 1"
    using assms by (intro divide_left_mono of_nat_0_le_iff) simp_all
  then have "q \<le> of_nat (unat n)"
    by (simp add: q_def)
  then have "\<lfloor>q\<rfloor> \<le> int (unat n)"
    by (simp add: floor_le_iff)
  moreover have "int (unat n) < 2 ^ 64"
    using unsigned_less[of n, where ?'a = int] by simp
  ultimately have "\<lfloor>q\<rfloor> < 2 ^ 64" by linarith
  moreover have "0 \<le> \<lfloor>q\<rfloor>" using q0 by simp
  ultimately show ?thesis
    using q0 by (simp add: to_size_t_def Let_def q_def)
qed

lemma rehash_n_Some:
  assumes "length (buckets m) = unat (n_buckets m)"
  shows "\<exists>m'. rehash_n np m nb = Some m'"
  using assms by (simp add: rehash_n_def Let_def)

lemma rehash_Some_wf:
  assumes "length (buckets m) = unat (n_buckets m)" and "1 \<le> max_load_factor m"
  shows "\<exists>m'. rehash np m = Some m'"
proof -
  from to_size_t_Some[OF assms(2), of "n_keys m"] obtain w where
    w: "to_size_t (of_nat (unat (n_keys m)) / max_load_factor m) = Some w" by blast
  have nz: "max_load_factor m \<noteq> 0" using assms(2) by auto
  show ?thesis
  proof (cases "w \<le> n_buckets m")
    case True
    then show ?thesis using w nz by (simp add: rehash_def reserve_def)
  next
    case False
    then show ?thesis
      using w nz rehash_n_Some[OF assms(1), of np "get_n_rehashing_buckets w"]
      by (simp add: rehash_def reserve_def)
  qed
qed

lemma set_with_hash_defined:
  assumes "n_buckets m \<noteq> 0" and "length (buckets m) = unat (n_buckets m)"
    and "1 \<le> max_load_factor m"
  shows "\<exists>m'. set_with_hash np m key h value reducer = Some m'"
proof -
  from hash_node_apply_Some[where handler = "set_node_handler key value reducer"
      and s = "n_keys m" and key = key and h = h, OF assms(1,2)] obtain c nk where
    st: "hash_node_apply m key h (set_node_handler key value reducer) (n_keys m) =
           Some (m\<lparr>buckets := (buckets m)[unat (h mod n_buckets m) := c]\<rparr>, nk)"
    by blast
  define m2 where "m2 = m\<lparr>buckets := (buckets m)[unat (h mod n_buckets m) := c], n_keys := nk\<rparr>"
  have wf: "length (buckets m2) = unat (n_buckets m2)" "1 \<le> max_load_factor m2"
    using assms by (simp_all add: m2_def)
  have "set_with_hash np m key h value reducer =
          (if rehash_needed m2 then rehash np m2 else Some m2)"
    using set_with_hash_stage[OF st] by (simp add: m2_def)
  then show ?thesis
    using rehash_Some_wf[OF wf, of np] by auto
qed

section \<open>What set does\<close>

text \<open>
  Claim C3. For every map that satisfies the representation invariant, every key with its
  hash value, every value and every reducer: if the key is present with the value \<open>v\<close>,
  the walk of the chain replaces \<open>v\<close> by \<open>reducer v value\<close> (the stored value first, the
  incoming one second) in the node of the key and leaves \<^verbatim>\<open>n_keys\<close> as it is; if the key is
  absent, the walk appends the node \<open>(key, value)\<close> at the end of the chain of the bucket and
  adds one to \<^verbatim>\<open>n_keys\<close>. Once \<^verbatim>\<open>set\<close> has returned, the key count and the stored values are
  the ones after the walk, and so are the chains unless the bucket array was replaced.
\<close>

theorem set_with_hash_effect:
  assumes inv: "map_inv n_procs m"
    and h: "hash_value = get_hash_value n_procs m key"
    and b: "bucket_id = unat (hash_value mod n_buckets m)"
    and s: "set_with_hash n_procs m key hash_value value reducer = Some m'"
  shows "(\<forall>v. lookup m key = Some v \<longrightarrow>
            (\<exists>xs ys. buckets m ! bucket_id = xs @ (key, v) # ys \<and> key \<notin> fst ` set xs
               \<and> hash_node_apply m key hash_value (set_node_handler key value reducer) (n_keys m)
                   = Some (m\<lparr>buckets := (buckets m)[bucket_id :=
                                  xs @ (key, reducer v value) # ys]\<rparr>, n_keys m)
               \<and> (n_buckets m' = n_buckets m \<longrightarrow>
                    buckets m' = (buckets m)[bucket_id := xs @ (key, reducer v value) # ys]))
            \<and> lookup m' = (lookup m)(key \<mapsto> reducer v value) \<and> n_keys m' = n_keys m)
       \<and> (lookup m key = None \<longrightarrow>
            hash_node_apply m key hash_value (set_node_handler key value reducer) (n_keys m)
              = Some (m\<lparr>buckets := (buckets m)[bucket_id :=
                             buckets m ! bucket_id @ [(key, value)]]\<rparr>, n_keys m + 1)
            \<and> (n_buckets m' = n_buckets m \<longrightarrow>
                 buckets m' = (buckets m)[bucket_id := buckets m ! bucket_id @ [(key, value)]])
            \<and> lookup m' = (lookup m)(key \<mapsto> value) \<and> n_keys m' = n_keys m + 1)"
proof -
  have nz: "n_buckets m \<noteq> 0" using inv by (simp add: map_inv_def)
  have bl: "unat (hash_value mod n_buckets m) < length (buckets m)"
    unfolding h by (rule map_inv_bucket_id[OF inv])
  have lk: "lookup m key = map_of (buckets m ! bucket_id) key"
    unfolding b h by (rule lookup_bucket[OF inv])
  note corr = set_with_hash_correct[OF inv s[unfolded h]]
  from set_with_hash_Some[OF s] obtain m1 nk where
    st: "hash_node_apply m key hash_value (set_node_handler key value reducer) (n_keys m)
           = Some (m1, nk)"
    and fin: "if rehash_needed (m1\<lparr>n_keys := nk\<rparr>) then rehash n_procs (m1\<lparr>n_keys := nk\<rparr>) = Some m'
              else m' = m1\<lparr>n_keys := nk\<rparr>"
    by blast
  have same: "buckets m' = buckets m1" if "n_buckets m' = n_buckets m"
  proof (cases "rehash_needed (m1\<lparr>n_keys := nk\<rparr>)")
    case True
    then have r: "rehash n_procs (m1\<lparr>n_keys := nk\<rparr>) = Some m'" using fin by simp
    have "n_buckets (m1\<lparr>n_keys := nk\<rparr>) = n_buckets m"
      using hash_node_apply_fields[OF st] by simp
    then have "m' = m1\<lparr>n_keys := nk\<rparr>"
      using rehash_fields[OF r] that by simp
    then show ?thesis by simp
  next
    case False
    then show ?thesis using fin by simp
  qed
  have present: "(\<exists>xs ys. buckets m ! bucket_id = xs @ (key, v) # ys \<and> key \<notin> fst ` set xs
               \<and> hash_node_apply m key hash_value (set_node_handler key value reducer) (n_keys m)
                   = Some (m\<lparr>buckets := (buckets m)[bucket_id :=
                                  xs @ (key, reducer v value) # ys]\<rparr>, n_keys m)
               \<and> (n_buckets m' = n_buckets m \<longrightarrow>
                    buckets m' = (buckets m)[bucket_id := xs @ (key, reducer v value) # ys]))
            \<and> lookup m' = (lookup m)(key \<mapsto> reducer v value) \<and> n_keys m' = n_keys m"
    if v: "lookup m key = Some v" for v
  proof -
    have "key \<in> fst ` set (buckets m ! bucket_id)"
      using v lk by (metis map_of_eq_None_iff option.distinct(1))
    from chain_split_first[OF this] obtain xs v' ys where
      c: "buckets m ! bucket_id = xs @ (key, v') # ys" "key \<notin> fst ` set xs"
        "map_of (buckets m ! bucket_id) key = Some v'"
      by blast
    have vv: "v' = v" using c(3) v lk by simp
    have ap: "hash_node_apply m key hash_value (set_node_handler key value reducer) (n_keys m)
          = Some (m\<lparr>buckets := (buckets m)[bucket_id := xs @ (key, reducer v value) # ys]\<rparr>,
                  n_keys m)"
      using set_apply_present[OF nz bl c(1)[unfolded b vv] c(2), of "value" reducer]
      by (simp add: b)
    then have "m1 = m\<lparr>buckets := (buckets m)[bucket_id := xs @ (key, reducer v value) # ys]\<rparr>"
      using st by simp
    then have "n_buckets m' = n_buckets m \<longrightarrow>
                 buckets m' = (buckets m)[bucket_id := xs @ (key, reducer v value) # ys]"
      using same by simp
    then show ?thesis
      using c(1,2) vv ap corr v by auto
  qed
  have absent: "hash_node_apply m key hash_value (set_node_handler key value reducer) (n_keys m)
              = Some (m\<lparr>buckets := (buckets m)[bucket_id :=
                             buckets m ! bucket_id @ [(key, value)]]\<rparr>, n_keys m + 1)
            \<and> (n_buckets m' = n_buckets m \<longrightarrow>
                 buckets m' = (buckets m)[bucket_id := buckets m ! bucket_id @ [(key, value)]])
            \<and> lookup m' = (lookup m)(key \<mapsto> value) \<and> n_keys m' = n_keys m + 1"
    if n: "lookup m key = None"
  proof -
    have nin: "key \<notin> fst ` set (buckets m ! unat (hash_value mod n_buckets m))"
      using n lk by (simp add: map_of_eq_None_iff b)
    have ap: "hash_node_apply m key hash_value (set_node_handler key value reducer) (n_keys m)
              = Some (m\<lparr>buckets := (buckets m)[bucket_id :=
                             buckets m ! bucket_id @ [(key, value)]]\<rparr>, n_keys m + 1)"
      using set_apply_absent[OF nz bl nin, of "value" reducer] by (simp add: b)
    then have "m1 = m\<lparr>buckets := (buckets m)[bucket_id := buckets m ! bucket_id @ [(key, value)]]\<rparr>"
      using st by simp
    then have "n_buckets m' = n_buckets m \<longrightarrow>
                 buckets m' = (buckets m)[bucket_id := buckets m ! bucket_id @ [(key, value)]]"
      using same by simp
    then show ?thesis
      using ap corr n by simp
  qed
  show ?thesis
    using present absent by blast
qed

theorem set_with_hash_effect_witness:
  "map_inv 1 small_map
   \<and> lookup small_map 16 = Some 60
   \<and> set_with_hash 1 small_map 16 16 7 (+) =
       Some (small_map\<lparr>buckets := (buckets small_map)[5 := [(5, 50), (16, 67)]]\<rparr>)
   \<and> lookup (small_map\<lparr>buckets := (buckets small_map)[5 := [(5, 50), (16, 67)]]\<rparr>) 16 = Some 67
   \<and> lookup small_map 27 = None
   \<and> set_with_hash 1 small_map 27 27 7 (+) =
       Some (small_map\<lparr>buckets := (buckets small_map)[5 := [(5, 50), (16, 60), (27, 7)]],
                        n_keys := 4\<rparr>)
   \<and> lookup (small_map\<lparr>buckets := (buckets small_map)[5 := [(5, 50), (16, 60), (27, 7)]],
                        n_keys := 4\<rparr>) 27 = Some 7"
proof -
  have inv: "map_inv 1 small_map"
    by (simp add: map_inv_chains small_map_def get_hash_value_def)
  have h16: "16 = get_hash_value 1 small_map 16" and h27: "27 = get_hash_value 1 small_map 27"
    by (simp_all add: get_hash_value_def small_map_def)
  have b: "5 = unat ((16 :: size_t) mod n_buckets small_map)"
    "5 = unat ((27 :: size_t) mod n_buckets small_map)"
    by (simp_all add: small_map_def)
  have l: "lookup small_map 16 = Some 60" "lookup small_map 27 = None"
    by (simp_all add: lookup_def entries_def small_map_def)
  have s16: "set_with_hash 1 small_map 16 16 7 (+) =
       Some (small_map\<lparr>buckets := (buckets small_map)[5 := [(5, 50), (16, 67)]]\<rparr>)"
    by (simp add: set_key_eval small_map_def)
  have s27: "set_with_hash 1 small_map 27 27 7 (+) =
       Some (small_map\<lparr>buckets := (buckets small_map)[5 := [(5, 50), (16, 60), (27, 7)]],
                        n_keys := 4\<rparr>)"
    by (simp add: set_key_eval small_map_def)
  from set_with_hash_effect[OF inv h16 b(1) s16] l(1)
  have "lookup (small_map\<lparr>buckets := (buckets small_map)[5 := [(5, 50), (16, 67)]]\<rparr>)
        = (lookup small_map)(16 \<mapsto> 60 + 7)"
    by blast
  then have "lookup (small_map\<lparr>buckets := (buckets small_map)[5 := [(5, 50), (16, 67)]]\<rparr>) 16
             = Some 67"
    by simp
  moreover from set_with_hash_effect[OF inv h27 b(2) s27] l(2)
  have "lookup (small_map\<lparr>buckets := (buckets small_map)[5 := [(5, 50), (16, 60), (27, 7)]],
                        n_keys := 4\<rparr>) = (lookup small_map)(27 \<mapsto> 7)"
    by blast
  then have "lookup (small_map\<lparr>buckets := (buckets small_map)[5 := [(5, 50), (16, 60), (27, 7)]],
                        n_keys := 4\<rparr>) 27 = Some 7"
    by simp
  ultimately show ?thesis
    using inv l s16 s27 by simp
qed

section \<open>Progress ticks\<close>

lemma print_ticks_exit:
  assumes "0 < t" and "c < t * 2 ^ N"
  shows "\<exists>n \<le> N. print_ticks t c p = Some (t * 2 ^ n, p @ map (\<lambda>k. t * 2 ^ k) [0 ..< n])
           \<and> (\<forall>k < n. t * 2 ^ k \<le> c) \<and> c < t * 2 ^ n"
  using assms
proof (induction N arbitrary: t p)
  case 0
  then have "print_ticks t c p = Some (t, p)"
    by (subst print_ticks.simps) simp
  then show ?case using 0 by simp
next
  case (Suc N)
  show ?case
  proof (cases "t \<le> c")
    case False
    then have "print_ticks t c p = Some (t, p)"
      by (subst print_ticks.simps) simp
    then show ?thesis using False by simp
  next
    case True
    have "0 < t * 2" "c < t * 2 * 2 ^ N"
      using Suc.prems by (simp_all add: mult.assoc)
    from Suc.IH[OF this, of "p @ [t]"] obtain n where
      n: "n \<le> N"
        "print_ticks (t * 2) c (p @ [t]) =
           Some (t * 2 * 2 ^ n, (p @ [t]) @ map (\<lambda>k. t * 2 * 2 ^ k) [0 ..< n])"
        "\<forall>k < n. t * 2 * 2 ^ k \<le> c" "c < t * 2 * 2 ^ n"
      by blast
    have "print_ticks t c p = print_ticks (t * 2) c (p @ [t])"
      using True by (subst print_ticks.simps) simp
    moreover have "map (\<lambda>k. t * 2 ^ k) [0 ..< Suc n] = t # map (\<lambda>k. t * 2 * 2 ^ k) [0 ..< n]"
      by (simp add: upt_conv_Cons map_Suc_upt[symmetric] mult.assoc del: upt_Suc)
    moreover have "\<forall>k < Suc n. t * 2 ^ k \<le> c"
    proof (intro allI impI)
      fix k assume "k < Suc n"
      then show "t * 2 ^ k \<le> c"
        using n(3) True by (cases k) (simp_all add: mult.assoc)
    qed
    moreover have "c < t * 2 ^ Suc n"
      using n(4) by (simp add: mult.assoc)
    ultimately have "Suc n \<le> Suc N
        \<and> print_ticks t c p = Some (t * 2 ^ Suc n, p @ map (\<lambda>k. t * 2 ^ k) [0 ..< Suc n])
        \<and> (\<forall>k < Suc n. t * 2 ^ k \<le> c) \<and> c < t * 2 ^ Suc n"
      using n(1,2) by (simp add: mult.assoc del: upt_Suc)
    then show ?thesis by blast
  qed
qed

lemma ex_two_power_bound:
  assumes "0 < (t :: rat)"
  shows "\<exists>N. c < t * 2 ^ N"
proof -
  obtain n :: nat where n: "c / t < of_nat n"
    using reals_Archimedean2 by blast
  have "(of_nat n :: rat) < 2 ^ n"
    by (rule of_nat_less_two_power)
  with n have "c / t < 2 ^ n" by (rule less_trans)
  then have "c < t * 2 ^ n"
    using assms by (simp add: pos_divide_less_eq mult.commute)
  then show ?thesis by blast
qed

lemma print_ticks_result:
  assumes "0 < t"
  shows "\<exists>n. print_ticks t c p = Some (t * 2 ^ n, p @ map (\<lambda>k. t * 2 ^ k) [0 ..< n])
           \<and> (\<forall>k < n. t * 2 ^ k \<le> c) \<and> c < t * 2 ^ n"
proof -
  from ex_two_power_bound[OF assms, of c] obtain N where "c < t * 2 ^ N" by blast
  from print_ticks_exit[OF assms this, of p] show ?thesis by blast
qed

lemma ticks_append:
  "map (\<lambda>k. (2 :: rat) ^ k / 10) [0 ..< n] @ map (\<lambda>k. 2 ^ n / 10 * 2 ^ k) [0 ..< j]
   = map (\<lambda>k. 2 ^ k / 10) [0 ..< n + j]"
proof -
  have "map (\<lambda>k. (2 :: rat) ^ n / 10 * 2 ^ k) [0 ..< j]
        = map (\<lambda>k. 2 ^ k / 10) (map (\<lambda>k. k + n) [0 ..< j])"
    by (simp add: power_add mult.commute)
  also have "map (\<lambda>k. k + n) [0 ..< j] = [n ..< n + j]"
    by (simp add: map_add_upt add.commute)
  finally have a: "map (\<lambda>k. (2 :: rat) ^ n / 10 * 2 ^ k) [0 ..< j]
                   = map (\<lambda>k. 2 ^ k / 10) [n ..< n + j]" .
  have split: "[0 ..< n + j] = [0 ..< n] @ [n ..< n + j]"
    by (rule upt_add_eq_append) simp
  show ?thesis
    by (simp only: a split map_append)
qed

lemma tick_less_iff: "(2 :: rat) ^ k / 10 < 2 ^ n / 10 \<longleftrightarrow> k < n"
  by simp

lemma progress_step_exact:
  "\<exists>n' \<ge> n. progress_step verbose proc_id thread_id n_bkts i
                 (2 ^ n / 10, map (\<lambda>k. 2 ^ k / 10) [0 ..< n])
               = Some (2 ^ n' / 10, map (\<lambda>k. 2 ^ k / 10) [0 ..< n'])
      \<and> (\<forall>k. k < n' \<longleftrightarrow>
            k < n \<or> verbose \<and> proc_id = 0 \<and> thread_id = 0
                     \<and> (2 :: rat) ^ k / 10 \<le> of_nat i * 100 / of_nat n_bkts)"
proof (cases "verbose \<and> proc_id = 0 \<and> thread_id = 0")
  case False
  then have "progress_step verbose proc_id thread_id n_bkts i
               (2 ^ n / 10, map (\<lambda>k. 2 ^ k / 10) [0 ..< n])
             = Some (2 ^ n / 10, map (\<lambda>k. 2 ^ k / 10) [0 ..< n])"
    by (auto simp: progress_step_def)
  then show ?thesis using False by blast
next
  case True
  define c :: rat where "c = of_nat i * 100 / of_nat n_bkts"
  have pos: "(0 :: rat) < 2 ^ n / 10" by simp
  from print_ticks_result[OF pos, of c "map (\<lambda>k. 2 ^ k / 10) [0 ..< n]"] obtain j where
    j: "print_ticks (2 ^ n / 10) c (map (\<lambda>k. 2 ^ k / 10) [0 ..< n])
          = Some (2 ^ n / 10 * 2 ^ j,
                  map (\<lambda>k. 2 ^ k / 10) [0 ..< n] @ map (\<lambda>k. 2 ^ n / 10 * 2 ^ k) [0 ..< j])"
      "\<forall>k < j. (2 :: rat) ^ n / 10 * 2 ^ k \<le> c"
      "c < 2 ^ n / 10 * 2 ^ j"
    by blast
  have tgt: "(2 :: rat) ^ n / 10 * 2 ^ j = 2 ^ (n + j) / 10"
    by (simp add: power_add)
  note j1 = j(1)[unfolded ticks_append tgt]
  have step: "progress_step verbose proc_id thread_id n_bkts i
                (2 ^ n / 10, map (\<lambda>k. 2 ^ k / 10) [0 ..< n])
              = Some (2 ^ (n + j) / 10, map (\<lambda>k. 2 ^ k / 10) [0 ..< n + j])"
    using True j1 by (simp add: progress_step_def c_def)
  have up: "c < 2 ^ (n + j) / 10"
    using j(3) by (simp only: tgt)
  have "k < n + j \<longleftrightarrow> k < n \<or> 2 ^ k / 10 \<le> c" for k
  proof
    assume kn: "k < n + j"
    show "k < n \<or> 2 ^ k / 10 \<le> c"
    proof (cases "k < n")
      case True
      then show ?thesis by simp
    next
      case False
      then have kj: "k - n < j" and e: "n + (k - n) = k" using kn by simp_all
      have "(2 :: rat) ^ n / 10 * 2 ^ (k - n) \<le> c"
        using j(2) kj by blast
      moreover have "(2 :: rat) ^ n / 10 * 2 ^ (k - n) = 2 ^ (n + (k - n)) / 10"
        by (simp only: power_add times_divide_eq_left)
      ultimately have "(2 :: rat) ^ k / 10 \<le> c"
        by (simp only: e)
      then show ?thesis by simp
    qed
  next
    assume "k < n \<or> 2 ^ k / 10 \<le> c"
    then show "k < n + j"
    proof
      assume "k < n"
      then show ?thesis by simp
    next
      assume "2 ^ k / 10 \<le> c"
      then have "(2 :: rat) ^ k / 10 < 2 ^ (n + j) / 10"
        using up by (rule le_less_trans)
      then show ?thesis by (simp only: tick_less_iff)
    qed
  qed
  then have "\<forall>k. k < n + j \<longleftrightarrow>
            k < n \<or> verbose \<and> proc_id = 0 \<and> thread_id = 0
                     \<and> (2 :: rat) ^ k / 10 \<le> of_nat i * 100 / of_nat n_bkts"
    using True by (simp add: c_def)
  then show ?thesis
    using step by (intro exI[of _ "n + j"]) simp
qed

lemma progress_loop_exact:
  "\<exists>n' \<ge> n. progress_loop verbose proc_id n_procs nthreads n_bkts js
                 (2 ^ n / 10, map (\<lambda>k. 2 ^ k / 10) [0 ..< n])
               = Some (2 ^ n' / 10, map (\<lambda>k. 2 ^ k / 10) [0 ..< n'])
      \<and> (\<forall>k. k < n' \<longleftrightarrow>
            k < n \<or> verbose \<and> proc_id = 0
                     \<and> (\<exists>j \<in> set js. j mod nthreads = 0
                           \<and> (2 :: rat) ^ k / 10 \<le> of_nat (proc_id + j * n_procs) * 100 / of_nat n_bkts))"
proof (induction js arbitrary: n)
  case Nil
  then show ?case by auto
next
  case (Cons j js)
  from progress_step_exact[of n verbose proc_id "j mod nthreads" n_bkts "proc_id + j * n_procs"]
  obtain n1 where n1: "n \<le> n1"
    "progress_step verbose proc_id (j mod nthreads) n_bkts (proc_id + j * n_procs)
       (2 ^ n / 10, map (\<lambda>k. 2 ^ k / 10) [0 ..< n])
     = Some (2 ^ n1 / 10, map (\<lambda>k. 2 ^ k / 10) [0 ..< n1])"
    "\<forall>k. k < n1 \<longleftrightarrow>
            k < n \<or> verbose \<and> proc_id = 0 \<and> j mod nthreads = 0
                     \<and> (2 :: rat) ^ k / 10 \<le> of_nat (proc_id + j * n_procs) * 100 / of_nat n_bkts"
    by blast
  from Cons.IH[of n1] obtain n' where n': "n1 \<le> n'"
    "progress_loop verbose proc_id n_procs nthreads n_bkts js
       (2 ^ n1 / 10, map (\<lambda>k. 2 ^ k / 10) [0 ..< n1])
     = Some (2 ^ n' / 10, map (\<lambda>k. 2 ^ k / 10) [0 ..< n'])"
    "\<forall>k. k < n' \<longleftrightarrow>
            k < n1 \<or> verbose \<and> proc_id = 0
                     \<and> (\<exists>j \<in> set js. j mod nthreads = 0
                           \<and> (2 :: rat) ^ k / 10 \<le> of_nat (proc_id + j * n_procs) * 100 / of_nat n_bkts)"
    by blast
  have run: "progress_loop verbose proc_id n_procs nthreads n_bkts (j # js)
          (2 ^ n / 10, map (\<lambda>k. 2 ^ k / 10) [0 ..< n])
        = Some (2 ^ n' / 10, map (\<lambda>k. 2 ^ k / 10) [0 ..< n'])"
    using n1(2) n'(2) by simp
  have "\<forall>k. k < n' \<longleftrightarrow>
            k < n \<or> verbose \<and> proc_id = 0
                     \<and> (\<exists>j' \<in> set (j # js). j' mod nthreads = 0
                           \<and> (2 :: rat) ^ k / 10 \<le> of_nat (proc_id + j' * n_procs) * 100 / of_nat n_bkts)"
  proof
    fix k
    define P where "P = (\<lambda>j'. j' mod nthreads = 0
        \<and> (2 :: rat) ^ k / 10 \<le> of_nat (proc_id + j' * n_procs) * 100 / of_nat n_bkts)"
    have a: "k < n1 \<longleftrightarrow> k < n \<or> verbose \<and> proc_id = 0 \<and> P j"
      using n1(3) by (simp only: P_def)
    have b: "k < n' \<longleftrightarrow> k < n1 \<or> verbose \<and> proc_id = 0 \<and> (\<exists>j' \<in> set js. P j')"
      using n'(3) by (simp only: P_def)
    have "k < n' \<longleftrightarrow> k < n \<or> verbose \<and> proc_id = 0 \<and> (\<exists>j' \<in> set (j # js). P j')"
      unfolding a b by (simp only: list.set bex_simps insert_iff) blast
    then show "k < n' \<longleftrightarrow>
            k < n \<or> verbose \<and> proc_id = 0
                     \<and> (\<exists>j' \<in> set (j # js). j' mod nthreads = 0
                           \<and> (2 :: rat) ^ k / 10 \<le> of_nat (proc_id + j' * n_procs) * 100 / of_nat n_bkts)"
      by (simp only: P_def)
  qed
  then show ?case
    using run n1(1) n'(1) by (intro exI[of _ n']) simp
qed

lemma progress_loop_silent:
  assumes "\<not> verbose \<or> proc_id \<noteq> 0"
  shows "progress_loop verbose proc_id n_procs nthreads n_bkts js st = Some st"
  using assms by (induction js) (auto simp: progress_step_def)

lemma n_iterations_bound:
  assumes "0 < n_procs" and "j < n_iterations proc_id n_procs n_bkts"
  shows "proc_id + j * n_procs < n_bkts"
proof -
  have "Suc j \<le> (n_bkts - proc_id + n_procs - 1) div n_procs"
    using assms(2) by (simp add: n_iterations_def)
  then have "Suc j * n_procs \<le> n_bkts - proc_id + n_procs - 1"
    using assms(1) by (simp only: less_eq_div_iff_mult_less_eq)
  then show ?thesis
    using assms(1) by (cases "n_bkts - proc_id") simp_all
qed

lemma progress_below_100:
  assumes "i < n_bkts"
  shows "(of_nat i :: rat) * 100 / of_nat n_bkts < 100"
proof -
  have "(of_nat i :: rat) < of_nat n_bkts" using assms by simp
  moreover have "(0 :: rat) < of_nat n_bkts" using assms by simp
  ultimately show ?thesis
    by (simp add: pos_divide_less_eq)
qed

lemma ticks_prefix:
  assumes "n \<le> 10"
  shows "map (\<lambda>k. (2 :: rat) ^ k / 10) [0 ..< n]
         = take n [1 / 10, 1 / 5, 2 / 5, 4 / 5, 8 / 5, 16 / 5, 32 / 5, 64 / 5, 128 / 5, 256 / 5]"
proof -
  have "map (\<lambda>k. (2 :: rat) ^ k / 10) [0 ..< 10]
        = [1 / 10, 1 / 5, 2 / 5, 4 / 5, 8 / 5, 16 / 5, 32 / 5, 64 / 5, 128 / 5, 256 / 5]"
    by (simp add: upt_rec)
  moreover have "take n (map (\<lambda>k. (2 :: rat) ^ k / 10) [0 ..< 10])
                 = map (\<lambda>k. 2 ^ k / 10) (take n [0 ..< 10])"
    by (rule take_map)
  moreover have "take n [0 ..< 10] = [0 ..< n]"
    using assms by (simp add: take_upt)
  ultimately show ?thesis by simp
qed

text \<open>
  Claim C7 says that a verbose \<^verbatim>\<open>mapreduce\<close> prints progress only on rank 0, thread 0, at the
  thresholds 10\%, 20\%, 40\%, 80\%, and nothing beyond 80\%. The threshold starts at
  \<^verbatim>\<open>0.1\<close>, but it is compared with \<^verbatim>\<open>i * 100.0 / n_buckets\<close>, a percentage, and printed
  with \<^verbatim>\<open>%.1f%%\<close>: the ticks are 0.1\%, 0.2\%, 0.4\%, \<open>\<dots>\<close>. On a map with the 11 buckets
  of the constructor, with one process and one thread, the ten ticks from 0.1 to 51.2 are
  printed.
\<close>

theorem mapreduce_ticks_counterexample:
  "mapreduce_ticks True 0 1 1 11
     = Some [1 / 10, 1 / 5, 2 / 5, 4 / 5, 8 / 5, 16 / 5, 32 / 5, 64 / 5, 128 / 5, 256 / 5]
   \<and> mapreduce_ticks True 0 1 1 11 \<noteq> Some [10, 20, 40, 80]"
  by (simp add: mapreduce_ticks_def n_iterations_def progress_step_def print_ticks.simps upt_rec)

text \<open>
  Claim C7, amended. In a \<^verbatim>\<open>mapreduce\<close> on at least one process, the ticks printed are the
  first \<open>n\<close> numbers of the doubling sequence 0.1, 0.2, 0.4, 0.8, 1.6, 3.2, 6.4, 12.8, 25.6,
  51.2 (per cent), in this order and each once, where the tick \<open>0.1 * 2 ^ k\<close> is among them
  exactly when the call is verbose, runs on rank 0, and the progress
  \<^verbatim>\<open>i * 100.0 / n_buckets\<close> of some iteration run by thread 0 has reached it. The progress
  is below 100, so there are at most ten ticks and none beyond 51.2. Nothing is printed
  unless the call is verbose and runs on rank 0; an iteration that runs on a thread other
  than thread 0 prints nothing and leaves the threshold as it is; an iteration \<open>i\<close> that
  runs on thread 0 of rank 0 prints, in order, every threshold not printed before that its
  progress has reached, and no other.
\<close>

theorem mapreduce_ticks_doubling:
  assumes "0 < n_procs"
  shows "(\<exists>n \<le> 10. mapreduce_ticks verbose proc_id n_procs nthreads n_bkts
            = Some (take n [1 / 10, 1 / 5, 2 / 5, 4 / 5, 8 / 5, 16 / 5, 32 / 5, 64 / 5,
                            128 / 5, 256 / 5])
          \<and> (\<forall>k. k < n \<longleftrightarrow>
                verbose \<and> proc_id = 0
                \<and> (\<exists>j < n_iterations proc_id n_procs n_bkts. j mod nthreads = 0
                      \<and> (2 :: rat) ^ k / 10
                           \<le> of_nat (proc_id + j * n_procs) * 100 / of_nat n_bkts)))
    \<and> (\<not> verbose \<or> proc_id \<noteq> 0 \<longrightarrow>
         mapreduce_ticks verbose proc_id n_procs nthreads n_bkts = Some [])
    \<and> (thread_id \<noteq> 0 \<longrightarrow> progress_step verbose proc_id thread_id n_bkts i st = Some st)
    \<and> (\<exists>n' \<ge> n0. progress_step True 0 0 n_bkts i
                        (2 ^ n0 / 10, map (\<lambda>k. 2 ^ k / 10) [0 ..< n0])
                      = Some (2 ^ n' / 10, map (\<lambda>k. 2 ^ k / 10) [0 ..< n'])
          \<and> (\<forall>k. k < n' \<longleftrightarrow>
                k < n0 \<or> (2 :: rat) ^ k / 10 \<le> of_nat i * 100 / of_nat n_bkts))"
proof -
  define N where "N = n_iterations proc_id n_procs n_bkts"
  from progress_loop_exact[of 0 verbose proc_id n_procs nthreads n_bkts "[0 ..< N]"]
  obtain n where n:
    "progress_loop verbose proc_id n_procs nthreads n_bkts [0 ..< N] (1 / 10, [])
     = Some (2 ^ n / 10, map (\<lambda>k. 2 ^ k / 10) [0 ..< n])"
    "\<forall>k. k < n \<longleftrightarrow>
        k < 0 \<or> verbose \<and> proc_id = 0
           \<and> (\<exists>j \<in> set [0 ..< N]. j mod nthreads = 0
                 \<and> (2 :: rat) ^ k / 10 \<le> of_nat (proc_id + j * n_procs) * 100 / of_nat n_bkts)"
    by auto
  have iff: "k < n \<longleftrightarrow>
        verbose \<and> proc_id = 0
           \<and> (\<exists>j < N. j mod nthreads = 0
                 \<and> (2 :: rat) ^ k / 10 \<le> of_nat (proc_id + j * n_procs) * 100 / of_nat n_bkts)"
    for k
  proof -
    have "set [0 ..< N] = {j. j < N}" by auto
    then show ?thesis
      using n(2)[rule_format, of k] by (simp only: not_less_zero simp_thms Bex_def mem_Collect_eq)
  qed
  have n10: "n \<le> 10"
  proof (rule ccontr)
    assume "\<not> n \<le> 10"
    then have "10 < n" by simp
    then obtain j where j: "j < N"
      "(2 :: rat) ^ 10 / 10 \<le> of_nat (proc_id + j * n_procs) * 100 / of_nat n_bkts"
      using iff[of 10] by blast
    have "proc_id + j * n_procs < n_bkts"
      using n_iterations_bound[OF assms] j(1) by (simp add: N_def)
    from j(2) progress_below_100[OF this]
    have "(2 :: rat) ^ 10 / 10 < 100" by (rule le_less_trans)
    then show False by simp
  qed
  have run: "mapreduce_ticks verbose proc_id n_procs nthreads n_bkts
        = Some (take n [1 / 10, 1 / 5, 2 / 5, 4 / 5, 8 / 5, 16 / 5, 32 / 5, 64 / 5,
                        128 / 5, 256 / 5])"
    using n(1) ticks_prefix[OF n10] by (simp add: mapreduce_ticks_def N_def)
  have first: "\<exists>n \<le> 10. mapreduce_ticks verbose proc_id n_procs nthreads n_bkts
            = Some (take n [1 / 10, 1 / 5, 2 / 5, 4 / 5, 8 / 5, 16 / 5, 32 / 5, 64 / 5,
                            128 / 5, 256 / 5])
          \<and> (\<forall>k. k < n \<longleftrightarrow>
                verbose \<and> proc_id = 0
                \<and> (\<exists>j < n_iterations proc_id n_procs n_bkts. j mod nthreads = 0
                      \<and> (2 :: rat) ^ k / 10
                           \<le> of_nat (proc_id + j * n_procs) * 100 / of_nat n_bkts))"
    using n10 run iff unfolding N_def by blast
  have second: "mapreduce_ticks verbose proc_id n_procs nthreads n_bkts = Some []"
    if "\<not> verbose \<or> proc_id \<noteq> 0"
    using progress_loop_silent[OF that] by (simp add: mapreduce_ticks_def)
  have third: "progress_step verbose proc_id thread_id n_bkts i st = Some st"
    if "thread_id \<noteq> 0"
    using that by (simp add: progress_step_def)
  have fourth: "\<exists>n' \<ge> n0. progress_step True 0 0 n_bkts i
                        (2 ^ n0 / 10, map (\<lambda>k. 2 ^ k / 10) [0 ..< n0])
                      = Some (2 ^ n' / 10, map (\<lambda>k. 2 ^ k / 10) [0 ..< n'])
          \<and> (\<forall>k. k < n' \<longleftrightarrow>
                k < n0 \<or> (2 :: rat) ^ k / 10 \<le> of_nat i * 100 / of_nat n_bkts)"
    using progress_step_exact[of n0 True 0 0 n_bkts i] by simp
  show ?thesis
    using first second third fourth by blast
qed

theorem mapreduce_ticks_doubling_witness:
  "(0 :: nat) < 2
   \<and> mapreduce_ticks True 0 2 12 47
       = Some [1 / 10, 1 / 5, 2 / 5, 4 / 5, 8 / 5, 16 / 5, 32 / 5, 64 / 5, 128 / 5]
   \<and> mapreduce_ticks True 0 2 16 11 = Some []
   \<and> mapreduce_ticks True 1 2 3 11 = Some []
   \<and> progress_step True 0 1 11 2 (1 / 10, []) = Some (1 / 10, [])"
proof -
  have p: "(0 :: nat) < 2" by simp
  have e: "mapreduce_ticks True 0 2 12 47
       = Some [1 / 10, 1 / 5, 2 / 5, 4 / 5, 8 / 5, 16 / 5, 32 / 5, 64 / 5, 128 / 5]"
    by (simp add: mapreduce_ticks_def n_iterations_def progress_step_def print_ticks.simps upt_rec)
  have e': "mapreduce_ticks True 0 2 16 11 = Some []"
    by (simp add: mapreduce_ticks_def n_iterations_def progress_step_def print_ticks.simps upt_rec)
  from mapreduce_ticks_doubling[where verbose = True and proc_id = 1 and nthreads = 3
      and n_bkts = 11 and thread_id = 1 and i = 2 and st = "(1 / 10, [])" and ?n0.0 = 0, OF p]
  have "mapreduce_ticks True 1 2 3 11 = Some []"
    by simp
  moreover from mapreduce_ticks_doubling[where verbose = True and proc_id = 0 and nthreads = 3
      and n_bkts = 11 and thread_id = 1 and i = 2 and st = "(1 / 10, [])" and ?n0.0 = 0, OF p]
  have "progress_step True 0 1 11 2 (1 / 10, []) = Some (1 / 10, [])"
    by simp
  ultimately have "mapreduce_ticks True 1 2 3 11 = Some []"
    "progress_step True 0 1 11 2 (1 / 10, []) = Some (1 / 10, [])"
    by simp_all
  then show ?thesis
    using e e' by simp
qed

section \<open>Bare maps\<close>



section \<open>async\_set\<close>

text \<open>
  Claim C5. For every segmented map with \<^verbatim>\<open>n_segments > 0\<close> segments and locks, every key,
  hash value \<open>h\<close>, value and reducer, \<^verbatim>\<open>async_set\<close> run by a thread with a staging cache
  looks at segment \<open>h mod n_segments\<close>. If the lock of that segment is free, the call sets
  the key in the bare map of the segment under the hash \<open>h div n_segments\<close> and changes
  nothing else. If the lock is held, the call sets the key in the staging cache of the
  calling thread under the full hash \<open>h\<close> and changes nothing else. In both cases it returns
  at once.
\<close>

theorem async_set_routes:
  assumes "n_segments m \<noteq> 0" and "length (segment_locks m) = unat (n_segments m)"
    and "length (segments m) = unat (n_segments m)" and "thread_id < length (thread_caches m)"
  shows "(\<not> segment_locks m ! unat (hash_value mod n_segments m) \<longrightarrow>
            async_set thread_id m key hash_value val reducer =
              Some (m\<lparr>segments := (segments m)[unat (hash_value mod n_segments m) :=
                          bare_set (segments m ! unat (hash_value mod n_segments m)) key
                            (hash_value div n_segments m) val reducer]\<rparr>))
       \<and> (segment_locks m ! unat (hash_value mod n_segments m) \<longrightarrow>
            async_set thread_id m key hash_value val reducer =
              Some (m\<lparr>thread_caches := (thread_caches m)[thread_id :=
                          bare_set (thread_caches m ! thread_id) key hash_value val reducer]\<rparr>))"
proof -
  have "unat (hash_value mod n_segments m) < unat (n_segments m)"
    using assms(1) by (rule bucket_id_less)
  then show ?thesis
    using assms by (simp add: async_set_def Let_def)
qed

theorem async_set_routes_witness:
  "n_segments segmented_map \<noteq> 0
   \<and> length (segment_locks segmented_map) = unat (n_segments segmented_map)
   \<and> length (segments segmented_map) = unat (n_segments segmented_map)
   \<and> 0 < length (thread_caches segmented_map)
   \<and> async_set 0 segmented_map 15 15 7 (+) =
       Some (segmented_map\<lparr>segments := (segments segmented_map)[1 := [(15, 1, 107)]]\<rparr>)
   \<and> async_set 0 (segmented_map\<lparr>segment_locks := (segment_locks segmented_map)[1 := True]\<rparr>)
         15 15 7 (+) =
       Some (segmented_map\<lparr>segment_locks := (segment_locks segmented_map)[1 := True],
                             thread_caches := (thread_caches segmented_map)[0 := [(15, 15, 8)]]\<rparr>)"
proof -
  have h: "n_segments segmented_map \<noteq> 0"
    "length (segment_locks segmented_map) = unat (n_segments segmented_map)"
    "length (segments segmented_map) = unat (n_segments segmented_map)"
    "0 < length (thread_caches segmented_map)"
    by (simp_all add: segmented_map_def)
  define locked where
    "locked = segmented_map\<lparr>segment_locks := (segment_locks segmented_map)[1 := True]\<rparr>"
  have h': "n_segments locked \<noteq> 0"
    "length (segment_locks locked) = unat (n_segments locked)"
    "length (segments locked) = unat (n_segments locked)"
    "0 < length (thread_caches locked)"
    by (simp_all add: segmented_map_def locked_def)
  have "async_set 0 segmented_map 15 15 7 (+) =
       Some (segmented_map\<lparr>segments := (segments segmented_map)[1 := [(15, 1, 107)]]\<rparr>)"
    using async_set_routes[where hash_value = 15 and key = 15 and val = 7
        and reducer = "(+)", OF h]
    by (simp add: segmented_map_def)
  moreover have "async_set 0 locked 15 15 7 (+) =
       Some (locked\<lparr>thread_caches := (thread_caches locked)[0 := [(15, 15, 8)]]\<rparr>)"
    using async_set_routes[where hash_value = 15 and key = 15 and val = 7
        and reducer = "(+)", OF h']
    by (simp add: segmented_map_def locked_def)
  ultimately show ?thesis
    using h by (simp add: locked_def)
qed

section \<open>sync\<close>















end
